theory Spec2Isabelle
  imports Main
begin

section \<open>Strings and the three regular expressions of the skill loader\<close>

text \<open>
  A JavaScript string is modelled as a \<^typ>\<open>string\<close> whose characters stand for the code
  units below 256. Within that range the class \<^verbatim>\<open>\s\<close> (and the characters removed by
  \<^verbatim>\<open>String.prototype.trim\<close>) is TAB, LF, VT, FF, CR, SPACE and NBSP; the dot of a regular
  expression matches everything except the line terminators LF and CR.
\<close>

definition nl :: string where
  "nl = [CHR 0x0A]"

definition is_line_terminator :: "char \<Rightarrow> bool" where
  "is_line_terminator c = (c = CHR 0x0A \<or> c = CHR 0x0D)"

definition is_space :: "char \<Rightarrow> bool" where
  "is_space c = (c = CHR 0x09 \<or> c = CHR 0x0A \<or> c = CHR 0x0B \<or> c = CHR 0x0C \<or>
                 c = CHR 0x0D \<or> c = CHR 0x20 \<or> c = CHR 0xA0)"

text \<open>\<^verbatim>\<open>s.trim()\<close>: all leading and all trailing white space is removed.\<close>

definition trim :: "string \<Rightarrow> string" where
  "trim s = rev (dropWhile is_space (rev (dropWhile is_space s)))"

text \<open>\<^verbatim>\<open>parts.join(sep)\<close> on an array of strings.\<close>

fun join :: "string \<Rightarrow> string list \<Rightarrow> string" where
  "join sep [] = []"
| "join sep [l] = l"
| "join sep (l # m # ls) = l @ sep @ join sep (m # ls)"

text \<open>A literal piece of a pattern, matched at the current position; the result is the
  text after it.\<close>

fun literal :: "string \<Rightarrow> string \<Rightarrow> string option" where
  "literal [] s = Some s"
| "literal (p # ps) [] = None"
| "literal (p # ps) (c # cs) = (if p = c then literal ps cs else None)"

text \<open>The lazy \<^verbatim>\<open>[\s\S]*?\<close> followed by a literal \<open>d\<close>: the shortest consumed text
  after which \<open>d\<close> matches. The result is the consumed text and the text after \<open>d\<close>.\<close>

fun lazy_then :: "string \<Rightarrow> string \<Rightarrow> (string \<times> string) option" where
  "lazy_then d [] = (case literal d [] of Some r \<Rightarrow> Some ([], r) | None \<Rightarrow> None)"
| "lazy_then d (c # cs) =
     (case literal d (c # cs) of
        Some r \<Rightarrow> Some ([], r)
      | None \<Rightarrow> (case lazy_then d cs of Some (a, r) \<Rightarrow> Some (c # a, r) | None \<Rightarrow> None))"

text \<open>The lazy \<^verbatim>\<open>[\s\S]+?\<close> followed by \<open>d\<close>: one character is consumed first.\<close>

definition lazy_plus_then :: "string \<Rightarrow> string \<Rightarrow> (string \<times> string) option" where
  "lazy_plus_then d s =
     (case s of
        [] \<Rightarrow> None
      | c # cs \<Rightarrow> (case lazy_then d cs of Some (a, r) \<Rightarrow> Some (c # a, r) | None \<Rightarrow> None))"

text \<open>\<^verbatim>\<open>content.match(/^---\n([\s\S]+?)\n---/)\<close>: without the \<^verbatim>\<open>m\<close> flag the caret is
  the start of the text. The result is capture group 1.\<close>

definition frontmatterMatch :: "string \<Rightarrow> string option" where
  "frontmatterMatch content =
     (case literal (''---'' @ nl) content of
        None \<Rightarrow> None
      | Some s \<Rightarrow> (case lazy_plus_then (nl @ ''---'') s of
                     None \<Rightarrow> None
                   | Some (fm, r) \<Rightarrow> Some fm))"

text \<open>\<^verbatim>\<open>content.replace(/^---\n[\s\S]+?\n---\n/, '')\<close>: the match, if there is one, starts
  the text and is removed; without a match the text is returned as it is.\<close>

definition strip_frontmatter :: "string \<Rightarrow> string" where
  "strip_frontmatter content =
     (case literal (''---'' @ nl) content of
        None \<Rightarrow> content
      | Some s \<Rightarrow> (case lazy_plus_then (nl @ ''---'' @ nl) s of
                     None \<Rightarrow> content
                   | Some (fm, r) \<Rightarrow> r))"

text \<open>The tail \<^verbatim>\<open>\s*(.+)\<close> of the two key patterns, on the text \<open>r\<close> after the key.
  \<open>value_after k r\<close> is the attempt in which \<^verbatim>\<open>\s*\<close> has consumed \<open>k\<close> characters: the
  greedy \<^verbatim>\<open>.+\<close> takes the longest run without a line terminator and needs one character;
  when it fails the matcher backtracks to \<open>k - 1\<close>. The greedy \<^verbatim>\<open>\s*\<close> starts with
  all the leading white space.\<close>

fun value_after :: "nat \<Rightarrow> string \<Rightarrow> string option" where
  "value_after 0 r =
     (case takeWhile (\<lambda>c. \<not> is_line_terminator c) r of
        [] \<Rightarrow> None
      | x # xs \<Rightarrow> Some (x # xs))"
| "value_after (Suc k) r =
     (case takeWhile (\<lambda>c. \<not> is_line_terminator c) (drop (Suc k) r) of
        [] \<Rightarrow> value_after k r
      | x # xs \<Rightarrow> Some (x # xs))"

definition match_at :: "string \<Rightarrow> string \<Rightarrow> string option" where
  "match_at key s =
     (case literal key s of
        None \<Rightarrow> None
      | Some r \<Rightarrow> value_after (length (takeWhile is_space r)) r)"

text \<open>\<^verbatim>\<open>frontmatter.match(/name:\s*(.+)/)\<close> and the same for \<^verbatim>\<open>description:\<close>: the
  pattern is tried at every position from the left, and the first position where it matches
  gives capture group 1.\<close>

fun key_match :: "string \<Rightarrow> string \<Rightarrow> string option" where
  "key_match key [] = match_at key []"
| "key_match key (c # cs) =
     (case match_at key (c # cs) of
        Some v \<Rightarrow> Some v
      | None \<Rightarrow> key_match key cs)"

definition nameMatch :: "string \<Rightarrow> string option" where
  "nameMatch frontmatter = key_match ''name:'' frontmatter"

definition descMatch :: "string \<Rightarrow> string option" where
  "descMatch frontmatter = key_match ''description:'' frontmatter"

section \<open>The skill loader\<close>

datatype js_error = Error string | TypeError string | GraphRecursionError

record skill =
  name :: string
  description :: string
  path :: string
  instructions :: string

text \<open>An entry of \<^verbatim>\<open>backend.lsInfo\<close>.\<close>

record file_info =
  dir_path :: string
  is_dir :: bool

text \<open>The backend is a collaborator outside the repository. \<open>lsInfo\<close> lists a
  directory, \<open>readRaw\<close> gives the lines of a file (\<^verbatim>\<open>fileData.content\<close>); each of them
  may raise.\<close>

record backend =
  lsInfo :: "string \<Rightarrow> js_error + file_info list"
  readRaw :: "string \<Rightarrow> js_error + string list"

definition skillMdPath :: "file_info \<Rightarrow> string" where
  "skillMdPath dir = dir_path dir @ ''SKILL.md''"

text \<open>The body of the \<^verbatim>\<open>try\<close> block after the file has been read: the descriptor
  that is pushed, if one is.\<close>

definition parse_skill :: "string \<Rightarrow> string \<Rightarrow> skill option" where
  "parse_skill p content =
     (case frontmatterMatch content of
        None \<Rightarrow> None
      | Some frontmatter \<Rightarrow>
          (case nameMatch frontmatter of
             None \<Rightarrow> None
           | Some n \<Rightarrow>
               (case descMatch frontmatter of
                  None \<Rightarrow> None
                | Some d \<Rightarrow>
                    Some \<lparr>name = trim n, description = trim d, path = p,
                          instructions = trim (strip_frontmatter content)\<rparr>)))"

text \<open>The \<^verbatim>\<open>for\<close> loop. The state is the array \<open>skills\<close> and the warnings written
  by \<^verbatim>\<open>console.warn\<close> so far; the \<^verbatim>\<open>catch\<close> block is the \<open>Inl\<close> branch.\<close>

fun load_loop ::
  "(string \<Rightarrow> js_error + string list) \<Rightarrow> file_info list \<Rightarrow> skill list \<times> string list
     \<Rightarrow> skill list \<times> string list" where
  "load_loop rd [] acc = acc"
| "load_loop rd (dir # dirs) (skills, warnings) =
     load_loop rd dirs
       (if is_dir dir then
          (case rd (skillMdPath dir) of
             Inl e \<Rightarrow>
               (skills, warnings @ [''Warning: Could not load skill from '' @ skillMdPath dir])
           | Inr ls \<Rightarrow>
               (case parse_skill (skillMdPath dir) (join nl ls) of
                  None \<Rightarrow> (skills, warnings)
                | Some sk \<Rightarrow> (skills @ [sk], warnings)))
        else (skills, warnings))"

text \<open>\<open>loadSkillsMetadata\<close>: the listing is outside the \<^verbatim>\<open>try\<close> block, so its error
  escapes. The result is the returned array together with the warnings logged.\<close>

definition loadSkillsMetadata ::
  "backend \<Rightarrow> string \<Rightarrow> js_error + (skill list \<times> string list)" where
  "loadSkillsMetadata b skillsPath =
     (case lsInfo b skillsPath of
        Inl e \<Rightarrow> Inl e
      | Inr skillDirs \<Rightarrow> Inr (load_loop (readRaw b) skillDirs ([], [])))"

section \<open>Messages and the graph state\<close>

datatype tool_call = ToolCall (tc_id: string) (tc_name: string) (tc_args: string)

text \<open>The four message classes. \<open>AIMessage\<close> carries its text and the field
  \<^verbatim>\<open>tool_calls\<close>, which may be absent; \<open>ToolMessage\<close> carries \<^verbatim>\<open>tool_call_id\<close> and its text.\<close>

datatype message =
    SystemMessage string
  | HumanMessage string
  | AIMessage string "tool_call list option"
  | ToolMessage string string

text \<open>Reading \<^verbatim>\<open>tool_calls\<close> off a message that is cast to \<^verbatim>\<open>AIMessage\<close>: the other
  classes have no such field.\<close>

fun tool_calls :: "message \<Rightarrow> tool_call list option" where
  "tool_calls (AIMessage text calls) = calls"
| "tool_calls m = None"

text \<open>\<open>StateAnnotation\<close>: one channel, whose reducer is \<^verbatim>\<open>(x, y) => x.concat(y)\<close>.\<close>

record state =
  messages :: "message list"

definition reducer :: "message list \<Rightarrow> message list \<Rightarrow> message list" where
  "reducer x y = x @ y"

definition apply_update :: "state \<Rightarrow> state \<Rightarrow> state" where
  "apply_update s u = \<lparr>messages = reducer (messages s) (messages u)\<rparr>"

section \<open>Routing\<close>

datatype route = Route_tools | Route_end

text \<open>\<open>shouldContinue\<close>, the same function in all three graph programs. On an empty
  array \<^verbatim>\<open>messages[messages.length - 1]\<close> is \<^verbatim>\<open>undefined\<close> and reading its field raises.\<close>

definition shouldContinue :: "state \<Rightarrow> js_error + route" where
  "shouldContinue s =
     (case messages s of
        [] \<Rightarrow> Inl (TypeError ''Cannot read properties of undefined'')
      | m # ms \<Rightarrow>
          (case tool_calls (last (m # ms)) of
             None \<Rightarrow> Inr Route_end
           | Some [] \<Rightarrow> Inr Route_end
           | Some (c # cs) \<Rightarrow> Inr Route_tools))"

section \<open>The model and the agent nodes\<close>

text \<open>The chat model is a collaborator: given the messages it answers with the text and the
  tool calls of one \<open>AIMessage\<close>, or its call fails. Within one run every call receives a
  longer list than the one before, so a function of the input covers every sequence of
  answers.\<close>

type_synonym chat_model = "message list \<Rightarrow> js_error + (string \<times> tool_call list option)"

definition invoke_model :: "chat_model \<Rightarrow> message list \<Rightarrow> js_error + message" where
  "invoke_model m input =
     (case m input of
        Inl e \<Rightarrow> Inl e
      | Inr (text, calls) \<Rightarrow> Inr (AIMessage text calls))"

text \<open>An agent node gives a state update. The model also records, next to the update, the
  list that was handed to \<^verbatim>\<open>invoke\<close>; that component is not a program variable.\<close>

type_synonym agent_node = "state \<Rightarrow> js_error + (message list \<times> state)"

text \<open>The node \<^verbatim>\<open>"agent"\<close> of \<^verbatim>\<open>index-with-graph.ts\<close>.\<close>

definition agent_graph :: "chat_model \<Rightarrow> agent_node" where
  "agent_graph modelWithTools s =
     (let msgs = messages s in
      case invoke_model modelWithTools msgs of
        Inl e \<Rightarrow> Inl e
      | Inr response \<Rightarrow> Inr (msgs, \<lparr>messages = [response]\<rparr>))"

text \<open>The node \<^verbatim>\<open>"agent"\<close> of \<^verbatim>\<open>index-with-skills.ts\<close> and of
  \<^verbatim>\<open>index-with-claude-tools.ts\<close>; the two differ in the text of the prompt only, which is
  the first argument here.\<close>

definition agent_skills :: "string \<Rightarrow> chat_model \<Rightarrow> agent_node" where
  "agent_skills prompt modelWithTools s =
     (let msgs = messages s in
      if length msgs = 1 then
        (let systemMessage = SystemMessage prompt;
             messagesWithSkills = systemMessage # msgs in
         case invoke_model modelWithTools messagesWithSkills of
           Inl e \<Rightarrow> Inl e
         | Inr response \<Rightarrow> Inr (messagesWithSkills, \<lparr>messages = [response]\<rparr>))
      else
        (case invoke_model modelWithTools msgs of
           Inl e \<Rightarrow> Inl e
         | Inr response \<Rightarrow> Inr (msgs, \<lparr>messages = [response]\<rparr>)))"

text \<open>The prompt text of \<^verbatim>\<open>index-with-skills.ts\<close>.\<close>

definition skill_entry :: "skill \<Rightarrow> string" where
  "skill_entry s =
     ''**'' @ name s @ ''**: '' @ description s @ nl @
     ''   - Full instructions: Read '' @ path s @ '' using the read_file tool''"

definition skillsPrompt :: "skill list \<Rightarrow> string" where
  "skillsPrompt skills =
     ''You have access to the following skills:'' @ nl @ nl @
     join (nl @ nl) (map skill_entry skills) @ nl @ nl @
     ''When a user asks you to use a skill:'' @ nl @
     ''1. Use the read_file tool to read the SKILL.md file'' @ nl @
     ''2. Follow the instructions in the SKILL.md file'' @ nl @
     ''3. Use the execute tool if the instructions require running a command''"

text \<open>\<open>callModel\<close> of \<^verbatim>\<open>index-with-graph.ts\<close>: the model comes from
  \<^verbatim>\<open>config.configurable?.model\<close>.\<close>

record configurable =
  model :: "chat_model option"

record run_config =
  configurable :: "configurable option"

definition callModel :: "state \<Rightarrow> run_config \<Rightarrow> js_error + (message list \<times> state)" where
  "callModel s config =
     (let msgs = messages s;
          m = (case configurable config of None \<Rightarrow> None | Some c \<Rightarrow> model c) in
      case m of
        None \<Rightarrow> Inl (Error ''Model not provided in config'')
      | Some m' \<Rightarrow>
          (case invoke_model m' msgs of
             Inl e \<Rightarrow> Inl e
           | Inr response \<Rightarrow> Inr (msgs, \<lparr>messages = [response]\<rparr>)))"

section \<open>The tool node\<close>

text \<open>A tool handler maps the arguments of a call to its output text, or to the message of
  its error.\<close>

type_synonym tool_registry = "string \<Rightarrow> (string \<Rightarrow> string + string) option"

text \<open>Modelled from the spec: \<open>ToolNode\<close> is imported from the graph library and its code
  is not part of the sources. The specification's tool dispatch is followed: one result
  for each call of the last message, in the order of the calls, carrying the id of its
  call; an unknown tool name and a failing tool both give a result whose text is the
  error.\<close>

definition dispatch :: "tool_registry \<Rightarrow> tool_call \<Rightarrow> message" where
  "dispatch registry call =
     ToolMessage (tc_id call)
       (case registry (tc_name call) of
          None \<Rightarrow> ''Error: unknown tool '' @ [CHR 0x27] @ tc_name call @ [CHR 0x27]
        | Some handler \<Rightarrow>
            (case handler (tc_args call) of Inl err \<Rightarrow> err | Inr out \<Rightarrow> out))"

text \<open>Modelled from the spec: the tool node, the update of \<open>ToolNode\<close>, is the list of
  these results for the calls of the last message of the state.\<close>

definition toolNode :: "tool_registry \<Rightarrow> state \<Rightarrow> state" where
  "toolNode registry s =
     \<lparr>messages =
        (case messages s of
           [] \<Rightarrow> []
         | m # ms \<Rightarrow>
             (case tool_calls (last (m # ms)) of
                None \<Rightarrow> []
              | Some calls \<Rightarrow> map (dispatch registry) calls))\<rparr>"

section \<open>The graph\<close>

text \<open>The graph has the edges \<^verbatim>\<open>__start__\<close> to \<^verbatim>\<open>agent\<close>, the conditional edges
  from \<^verbatim>\<open>agent\<close> chosen by \<open>shouldContinue\<close>, and \<^verbatim>\<open>tools\<close> to \<^verbatim>\<open>agent\<close>. A
  configuration is the node to run next, the state, and the record of the model calls made
  so far: what the state held when the agent node was entered, and what was handed to the
  model.\<close>

datatype node = Agent | Tools | END

record invocation =
  seen :: "message list"
  sent :: "message list"

record config =
  node :: node
  st :: state
  invocations :: "invocation list"

definition step :: "agent_node \<Rightarrow> tool_registry \<Rightarrow> config \<Rightarrow> js_error + config" where
  "step agent registry c =
     (case node c of
        Agent \<Rightarrow>
          (case agent (st c) of
             Inl e \<Rightarrow> Inl e
           | Inr (input, update) \<Rightarrow>
               (let s' = apply_update (st c) update in
                case shouldContinue s' of
                  Inl e \<Rightarrow> Inl e
                | Inr r \<Rightarrow>
                    Inr \<lparr>node = (case r of Route_tools \<Rightarrow> Tools | Route_end \<Rightarrow> END),
                         st = s',
                         invocations =
                           invocations c @ [\<lparr>seen = messages (st c), sent = input\<rparr>]\<rparr>))
      | Tools \<Rightarrow>
          Inr \<lparr>node = Agent, st = apply_update (st c) (toolNode registry (st c)),
               invocations = invocations c\<rparr>
      | END \<Rightarrow> Inr c)"

fun steps :: "nat \<Rightarrow> agent_node \<Rightarrow> tool_registry \<Rightarrow> config \<Rightarrow> js_error + config" where
  "steps 0 agent registry c = Inr c"
| "steps (Suc n) agent registry c =
     (case step agent registry c of
        Inl e \<Rightarrow> Inl e
      | Inr c' \<Rightarrow> steps n agent registry c')"

definition start :: "state \<Rightarrow> config" where
  "start s = \<lparr>node = Agent, st = s, invocations = []\<rparr>"

text \<open>\<^verbatim>\<open>app.invoke\<close>: the graph runs from \<^verbatim>\<open>__start__\<close> until it reaches \<open>END\<close>; the
  library gives up after a bounded number of node executions, the first argument. The
  state it starts from is what the thread's checkpoint holds followed by the input.\<close>

definition invoke :: "nat \<Rightarrow> agent_node \<Rightarrow> tool_registry \<Rightarrow> state \<Rightarrow> js_error + state" where
  "invoke limit agent registry s =
     (case steps limit agent registry (start s) of
        Inl e \<Rightarrow> Inl e
      | Inr c \<Rightarrow> if node c = END then Inr (st c) else Inl GraphRecursionError)"

section \<open>Properties of an instruction file\<close>

text \<open>The instructions in the words of the specification: the text after the second
  delimiter of three dashes, with one leading newline removed if there is one.\<close>

definition instructions_spec :: "string \<Rightarrow> string option" where
  "instructions_spec content =
     (case literal (''---'' @ nl) content of
        None \<Rightarrow> None
      | Some s \<Rightarrow> (case lazy_plus_then (nl @ ''---'') s of
                     None \<Rightarrow> None
                   | Some (fm, r) \<Rightarrow>
                       Some (case r of
                               [] \<Rightarrow> []
                             | c # cs \<Rightarrow> if c = CHR 0x0A then cs else c # cs)))"

text \<open>The lines of a text, and the delimiting of a header in the words of the
  specification: the first line is exactly three dashes and so is a later line.\<close>

fun split_lines :: "string \<Rightarrow> string list" where
  "split_lines [] = [[]]"
| "split_lines (c # cs) =
     (if c = CHR 0x0A then [] # split_lines cs
      else (case split_lines cs of [] \<Rightarrow> [[c]] | l # ls \<Rightarrow> (c # l) # ls))"

definition delimited_spec :: "string \<Rightarrow> bool" where
  "delimited_spec content =
     (case split_lines content of
        [] \<Rightarrow> False
      | l # ls \<Rightarrow> l = ''---'' \<and> ''---'' \<in> set ls)"

text \<open>Whether a literal occurs somewhere in a text.\<close>

fun occurs :: "string \<Rightarrow> string \<Rightarrow> bool" where
  "occurs key [] = (literal key [] \<noteq> None)"
| "occurs key (c # cs) = (literal key (c # cs) \<noteq> None \<or> occurs key cs)"

section \<open>Properties of a transcript\<close>

fun is_ai :: "message \<Rightarrow> bool" where
  "is_ai (AIMessage text calls) = True"
| "is_ai m = False"

fun is_human :: "message \<Rightarrow> bool" where
  "is_human (HumanMessage text) = True"
| "is_human m = False"

fun is_system :: "message \<Rightarrow> bool" where
  "is_system (SystemMessage text) = True"
| "is_system m = False"

text \<open>The ids carried by the tool results of a list of messages, in their order.\<close>

fun tool_ids :: "message list \<Rightarrow> string list" where
  "tool_ids [] = []"
| "tool_ids (ToolMessage i text # ms) = i # tool_ids ms"
| "tool_ids (m # ms) = tool_ids ms"

definition calls_of :: "message \<Rightarrow> tool_call list" where
  "calls_of m = (case tool_calls m of None \<Rightarrow> [] | Some calls \<Rightarrow> calls)"

text \<open>The messages in front of the next assistant message.\<close>

definition until_next_ai :: "message list \<Rightarrow> message list" where
  "until_next_ai ms = takeWhile (\<lambda>x. \<not> is_ai x) ms"

text \<open>A transcript is answered when, for each of its assistant messages, the tool results
  that stand between it and the next assistant message carry exactly the ids of its tool
  calls, one result for each call and in the order of the calls.\<close>

fun answered :: "message list \<Rightarrow> bool" where
  "answered [] = True"
| "answered (m # rest) =
     ((is_ai m \<longrightarrow> tool_ids (until_next_ai rest) = map tc_id (calls_of m)) \<and> answered rest)"

text \<open>The condition on the messages that a run has added to the state it started from,
  when the node to run next is \<open>nd\<close>. The first added message is the model's. In front
  of the tool node the last message is the assistant message whose calls are about to be
  served and everything added before it is answered; anywhere else all that was added is
  answered.\<close>

definition settled :: "node \<Rightarrow> message list \<Rightarrow> bool" where
  "settled nd added =
     ((added = [] \<or> is_ai (hd added))
      \<and> (if nd = Tools
         then added \<noteq> [] \<and> is_ai (last added) \<and> answered (butlast added)
         else answered added))"

text \<open>A configuration that is past the first turn: the agent node will not find a state
  of exactly one message again.\<close>

definition past_first_turn :: "config \<Rightarrow> bool" where
  "past_first_turn c =
     (2 \<le> length (messages (st c)) \<or> node c = END
      \<or> (node c = Tools \<and> messages (st c) \<noteq> [] \<and> calls_of (last (messages (st c))) \<noteq> []))"

text \<open>The first-turn condition in the words of the specification: the transcript holds
  exactly one human message and no assistant message.\<close>

definition first_turn_spec :: "message list \<Rightarrow> bool" where
  "first_turn_spec ms = (length (filter is_human ms) = 1 \<and> \<not> list_ex is_ai ms)"

section \<open>Example collaborators\<close>

text \<open>A model whose first answer asks for two tools, one of them unknown, and whose later
  answers are final.\<close>

definition scripted_model :: chat_model where
  "scripted_model input =
     (if length input < 3
      then Inr (''looking'', Some [ToolCall ''1'' ''search'' ''X'', ToolCall ''2'' ''unknown_tool'' ''Y''])
      else Inr (''done'', Some []))"

text \<open>A model that answers at once, without tool calls.\<close>

definition plain_model :: chat_model where
  "plain_model input = Inr (''hello'', None)"

text \<open>A model whose second call fails.\<close>

definition flaky_model :: chat_model where
  "flaky_model input =
     (if length input < 2
      then Inr (''looking'', Some [ToolCall ''1'' ''search'' ''X''])
      else Inl (Error ''model unavailable''))"

definition search_registry :: tool_registry where
  "search_registry tool_name =
     (if tool_name = ''search'' then Some (\<lambda>args. Inr ''result text'') else None)"

text \<open>A skills directory with a well-formed skill, a subdirectory without an instruction
  file, a skill whose header has no description, and a plain file.\<close>

definition example_backend :: backend where
  "example_backend =
     \<lparr>lsInfo = (\<lambda>p. if p = ''/skills''
                    then Inr [\<lparr>dir_path = ''/skills/foo/'', is_dir = True\<rparr>,
                              \<lparr>dir_path = ''/skills/empty/'', is_dir = True\<rparr>,
                              \<lparr>dir_path = ''/skills/broken/'', is_dir = True\<rparr>,
                              \<lparr>dir_path = ''/skills/notes.txt'', is_dir = False\<rparr>]
                    else Inl (Error ''ENOENT'')),
      readRaw = (\<lambda>p. if p = ''/skills/foo/SKILL.md''
                     then Inr [''---'', ''name: foo'', ''description: Foo tool'', ''---'', ''Do X'']
                     else if p = ''/skills/broken/SKILL.md''
                     then Inr [''---'', ''name: broken'', ''---'', ''no description'']
                     else Inl (Error ''ENOENT''))\<rparr>"

text \<open>A skills directory whose only entry is the skill without a description.\<close>

definition broken_backend :: backend where
  "broken_backend =
     \<lparr>lsInfo = (\<lambda>p. Inr [\<lparr>dir_path = ''/skills/broken/'', is_dir = True\<rparr>]),
      readRaw = (\<lambda>p. if p = ''/skills/broken/SKILL.md''
                     then Inr [''---'', ''name: broken'', ''---'', ''no description'']
                     else Inl (Error ''ENOENT''))\<rparr>"

text \<open>A skills directory whose only entry is a skill whose header is closed by a line
  of four dashes.\<close>

definition dashes_backend :: backend where
  "dashes_backend =
     \<lparr>lsInfo = (\<lambda>p. Inr [\<lparr>dir_path = ''/skills/a/'', is_dir = True\<rparr>]),
      readRaw = (\<lambda>p. if p = ''/skills/a/SKILL.md''
                     then Inr [''---'', ''name: a'', ''description: b'', ''----'']
                     else Inl (Error ''ENOENT''))\<rparr>"

section \<open>Routing and termination of a run\<close>

lemma shouldContinue_last:
  "shouldContinue \<lparr>messages = ms @ [m]\<rparr> =
     Inr (case tool_calls m of
            None \<Rightarrow> Route_end
          | Some [] \<Rightarrow> Route_end
          | Some (c # cs) \<Rightarrow> Route_tools)"
  by (cases ms) (auto simp: shouldContinue_def split: option.splits list.splits)

lemma steps_END: "node c = END \<Longrightarrow> steps n agent registry c = Inr c"
  by (induction n) (simp_all add: step_def)

text \<open>
  Claim C2. When the last message of the state is an \<open>AIMessage\<close>, \<open>shouldContinue\<close>
  answers \<open>tools\<close> exactly when that message has at least one tool call and \<open>end\<close>
  otherwise; an empty list of tool calls and an absent one are routed alike. At \<open>END\<close>
  the run stops, however many further steps are allowed, and the state is handed back as it
  is: when the agent's answer has no tool call, \<open>invoke\<close> returns the messages it was
  given followed by that answer and nothing else.
\<close>

theorem routing_by_last_assistant:
  "(shouldContinue \<lparr>messages = ms @ [AIMessage text calls]\<rparr> =
      Inr (if calls = None \<or> calls = Some [] then Route_end else Route_tools))
   \<and> (node c = END \<longrightarrow> steps n agent registry c = Inr c)
   \<and> (agent s = Inr (input, \<lparr>messages = [AIMessage text' calls']\<rparr>)
        \<and> (calls' = None \<or> calls' = Some [])
      \<longrightarrow> invoke (Suc n) agent registry s =
            Inr \<lparr>messages = messages s @ [AIMessage text' calls']\<rparr>)"
proof (intro conjI impI)
  show "shouldContinue \<lparr>messages = ms @ [AIMessage text calls]\<rparr> =
      Inr (if calls = None \<or> calls = Some [] then Route_end else Route_tools)"
    by (cases calls; cases "the calls") (simp_all add: shouldContinue_last)
next
  assume "node c = END"
  then show "steps n agent registry c = Inr c" by (rule steps_END)
next
  assume a: "agent s = Inr (input, \<lparr>messages = [AIMessage text' calls']\<rparr>)
        \<and> (calls' = None \<or> calls' = Some [])"
  let ?s' = "\<lparr>messages = messages s @ [AIMessage text' calls']\<rparr>"
  let ?c' = "\<lparr>node = END, st = ?s', invocations = [\<lparr>seen = messages s, sent = input\<rparr>]\<rparr>"
  have r: "shouldContinue ?s' = Inr Route_end"
    using a by (auto simp: shouldContinue_last)
  have "step agent registry (start s) = Inr ?c'"
    using a r by (simp add: step_def start_def apply_update_def reducer_def)
  then have "steps (Suc n) agent registry (start s) = Inr ?c'"
    by (simp add: steps_END)
  then show "invoke (Suc n) agent registry s = Inr ?s'"
    by (simp add: invoke_def)
qed

theorem routing_by_last_assistant_witness:
  "steps 2 (agent_graph plain_model) search_registry
     \<lparr>node = END, st = \<lparr>messages = [HumanMessage ''hi'']\<rparr>, invocations = []\<rparr> =
   Inr \<lparr>node = END, st = \<lparr>messages = [HumanMessage ''hi'']\<rparr>, invocations = []\<rparr>
   \<and> invoke 1 (agent_graph plain_model) search_registry
       \<lparr>messages = [SystemMessage ''sys'', HumanMessage ''hi'']\<rparr> =
     Inr \<lparr>messages = [SystemMessage ''sys'', HumanMessage ''hi'', AIMessage ''hello'' None]\<rparr>"
proof -
  let ?c = "\<lparr>node = END, st = \<lparr>messages = [HumanMessage ''hi'']\<rparr>, invocations = []\<rparr>"
  let ?s = "\<lparr>messages = [SystemMessage ''sys'', HumanMessage ''hi'']\<rparr>"
  have h1: "node ?c = END" by simp
  have h2: "agent_graph plain_model ?s =
              Inr ([SystemMessage ''sys'', HumanMessage ''hi''],
                   \<lparr>messages = [AIMessage ''hello'' None]\<rparr>)
            \<and> ((None :: tool_call list option) = None \<or> (None :: tool_call list option) = Some [])"
    by (simp add: agent_graph_def invoke_model_def plain_model_def)
  note t = routing_by_last_assistant
    [where c = ?c and n = 2 and agent = "agent_graph plain_model" and registry = search_registry]
  note u = routing_by_last_assistant
    [where n = 0 and agent = "agent_graph plain_model" and registry = search_registry
       and s = ?s and input = "[SystemMessage ''sys'', HumanMessage ''hi'']"
       and text' = "''hello''" and calls' = None]
  have w1: "steps 2 (agent_graph plain_model) search_registry ?c = Inr ?c"
    using t h1 by blast
  have w2: "invoke 1 (agent_graph plain_model) search_registry ?s =
     Inr \<lparr>messages = [SystemMessage ''sys'', HumanMessage ''hi'', AIMessage ''hello'' None]\<rparr>"
    using u h2 by simp
  show ?thesis by (intro conjI w1 w2)
qed

section \<open>A run never evaluates the routing function on an empty state\<close>

lemma agent_graph_update:
  "agent_graph m s = Inr (input, u) \<Longrightarrow>
     \<exists>text calls. u = \<lparr>messages = [AIMessage text calls]\<rparr>"
  by (auto simp: agent_graph_def invoke_model_def Let_def split: sum.splits prod.splits)

lemma agent_skills_update:
  "agent_skills p m s = Inr (input, u) \<Longrightarrow>
     \<exists>text calls. u = \<lparr>messages = [AIMessage text calls]\<rparr>"
  by (auto simp: agent_skills_def invoke_model_def Let_def
      split: sum.splits prod.splits if_splits)

lemma shouldContinue_fault: "(\<exists>e. shouldContinue s = Inl e) = (messages s = [])"
  by (auto simp: shouldContinue_def split: list.splits option.splits)

lemma shouldContinue_nonempty: "messages s \<noteq> [] \<Longrightarrow> \<exists>r. shouldContinue s = Inr r"
  by (auto simp: shouldContinue_def split: list.splits option.splits)

lemma step_error_graph:
  "step (agent_graph m) registry c = Inl e \<Longrightarrow> \<exists>input. m input = Inl e"
  by (auto simp: step_def agent_graph_def invoke_model_def apply_update_def reducer_def
        shouldContinue_def Let_def
      split: node.splits sum.splits prod.splits list.splits option.splits)

lemma step_error_skills:
  "step (agent_skills p m) registry c = Inl e \<Longrightarrow> \<exists>input. m input = Inl e"
  by (auto simp: step_def agent_skills_def invoke_model_def apply_update_def reducer_def
        shouldContinue_def Let_def
      split: node.splits sum.splits prod.splits list.splits option.splits if_splits)

lemma steps_error:
  assumes "\<And>c. step agent registry c = Inl e \<Longrightarrow> \<exists>input. m input = Inl e"
  shows "steps n agent registry c = Inl e \<Longrightarrow> \<exists>input. m input = Inl e"
proof (induction n arbitrary: c)
  case 0
  then show ?case by simp
next
  case (Suc n)
  show ?case
  proof (cases "step agent registry c")
    case (Inl e')
    with Suc.prems have "step agent registry c = Inl e" by simp
    then show ?thesis by (rule assms)
  next
    case (Inr c')
    with Suc.prems have "steps n agent registry c' = Inl e" by simp
    then show ?thesis by (rule Suc.IH)
  qed
qed

text \<open>
  Claim C9. \<open>shouldContinue\<close> raises on a state without messages, and only there. The
  graph evaluates it only on the state that the agent node has just extended by the
  model's answer, which is not empty, so there it returns a route; hence the only error
  with which a run of either graph can stop is an error of the model's own call, after
  any number of steps and from any configuration.
\<close>

theorem routing_never_faults:
  "shouldContinue \<lparr>messages = []\<rparr> = Inl (TypeError ''Cannot read properties of undefined'')
   \<and> (shouldContinue s = Inl e \<longrightarrow> messages s = [])
   \<and> (agent_graph m s = Inr (input, u) \<longrightarrow>
        messages (apply_update s u) \<noteq> [] \<and> (\<exists>r. shouldContinue (apply_update s u) = Inr r))
   \<and> (agent_skills p m s = Inr (input, u) \<longrightarrow>
        messages (apply_update s u) \<noteq> [] \<and> (\<exists>r. shouldContinue (apply_update s u) = Inr r))
   \<and> (steps n (agent_graph m) registry c = Inl e \<longrightarrow> (\<exists>input. m input = Inl e))
   \<and> (steps n (agent_skills p m) registry c = Inl e \<longrightarrow> (\<exists>input. m input = Inl e))"
proof (intro conjI impI)
  show "shouldContinue \<lparr>messages = []\<rparr> = Inl (TypeError ''Cannot read properties of undefined'')"
    by (simp add: shouldContinue_def)
next
  assume "shouldContinue s = Inl e"
  then show "messages s = []" using shouldContinue_fault [of s] by blast
next
  assume a: "agent_graph m s = Inr (input, u)"
  then show ne: "messages (apply_update s u) \<noteq> []"
    by (auto dest: agent_graph_update simp: apply_update_def reducer_def)
  then show "\<exists>r. shouldContinue (apply_update s u) = Inr r"
    by (rule shouldContinue_nonempty)
next
  assume a: "agent_skills p m s = Inr (input, u)"
  then show ne: "messages (apply_update s u) \<noteq> []"
    by (auto dest: agent_skills_update simp: apply_update_def reducer_def)
  then show "\<exists>r. shouldContinue (apply_update s u) = Inr r"
    by (rule shouldContinue_nonempty)
next
  assume "steps n (agent_graph m) registry c = Inl e"
  then show "\<exists>input. m input = Inl e"
    by (rule steps_error [rotated]) (rule step_error_graph)
next
  assume "steps n (agent_skills p m) registry c = Inl e"
  then show "\<exists>input. m input = Inl e"
    by (rule steps_error [rotated]) (rule step_error_skills)
qed

theorem routing_never_faults_witness:
  "messages \<lparr>messages = []\<rparr> = []
   \<and> messages (apply_update \<lparr>messages = []\<rparr> \<lparr>messages = [AIMessage ''hello'' None]\<rparr>) \<noteq> []
   \<and> (\<exists>r. shouldContinue (apply_update \<lparr>messages = [HumanMessage ''hi'']\<rparr>
              \<lparr>messages = [AIMessage ''hello'' None]\<rparr>) = Inr r)
   \<and> (\<exists>input. flaky_model input = Inl (Error ''model unavailable''))"
proof -
  have h1: "shouldContinue \<lparr>messages = []\<rparr> = Inl (TypeError ''Cannot read properties of undefined'')"
    by (simp add: shouldContinue_def)
  have h2: "agent_graph plain_model \<lparr>messages = []\<rparr> =
              Inr ([], \<lparr>messages = [AIMessage ''hello'' None]\<rparr>)"
    by (simp add: agent_graph_def invoke_model_def plain_model_def)
  have h3: "agent_skills (skillsPrompt []) plain_model \<lparr>messages = [HumanMessage ''hi'']\<rparr> =
              Inr ([SystemMessage (skillsPrompt []), HumanMessage ''hi''],
                   \<lparr>messages = [AIMessage ''hello'' None]\<rparr>)"
    by (simp add: agent_skills_def invoke_model_def plain_model_def)
  have h4: "steps 3 (agent_graph flaky_model) search_registry
              (start \<lparr>messages = [HumanMessage ''hi'']\<rparr>) = Inl (Error ''model unavailable'')"
    by (simp add: numeral_3_eq_3 step_def start_def agent_graph_def invoke_model_def
          apply_update_def reducer_def shouldContinue_def toolNode_def dispatch_def
          flaky_model_def search_registry_def)
  have h5: "steps 3 (agent_skills (skillsPrompt []) flaky_model) search_registry
              (start \<lparr>messages = [HumanMessage ''hi'']\<rparr>) = Inl (Error ''model unavailable'')"
    by (simp add: numeral_3_eq_3 step_def start_def agent_skills_def invoke_model_def
          apply_update_def reducer_def shouldContinue_def toolNode_def dispatch_def
          flaky_model_def search_registry_def)
  note a = routing_never_faults [where s = "\<lparr>messages = []\<rparr>"
      and e = "TypeError ''Cannot read properties of undefined''" and m = plain_model
      and input = "[]" and u = "\<lparr>messages = [AIMessage ''hello'' None]\<rparr>"]
  note b = routing_never_faults [where s = "\<lparr>messages = [HumanMessage ''hi'']\<rparr>"
      and m = plain_model and input = "[SystemMessage (skillsPrompt []), HumanMessage ''hi'']"
      and u = "\<lparr>messages = [AIMessage ''hello'' None]\<rparr>" and p = "skillsPrompt []"]
  note c = routing_never_faults [where m = flaky_model and e = "Error ''model unavailable''"
      and n = 3 and p = "skillsPrompt []" and registry = search_registry
      and c = "start \<lparr>messages = [HumanMessage ''hi'']\<rparr>"]
  have w1: "messages \<lparr>messages = []\<rparr> = []"
    using a h1 by simp
  have w2: "messages (apply_update \<lparr>messages = []\<rparr>
              \<lparr>messages = [AIMessage ''hello'' None]\<rparr>) \<noteq> []"
    using a h2 by simp
  have w3: "\<exists>r. shouldContinue (apply_update \<lparr>messages = [HumanMessage ''hi'']\<rparr>
              \<lparr>messages = [AIMessage ''hello'' None]\<rparr>) = Inr r"
    using b h3 by simp
  have w4: "\<exists>input. flaky_model input = Inl (Error ''model unavailable'')"
    using c h4 h5 by simp
  show ?thesis by (intro conjI w1 w2 w3 w4)
qed

section \<open>A missing model\<close>

text \<open>
  Claim C8. Without a model in the configuration, whether \<open>configurable\<close> is absent or
  holds no model, \<open>callModel\<close> raises the error \<open>Model not provided in config\<close> for
  every state. It raises before the model could be called and gives no state update, so no
  message of any kind is appended. A graph whose agent node is \<open>callModel\<close> stops with
  that error at its first step, whatever the bound on the number of steps: the caller of
  \<open>invoke\<close> receives the error and no state.
\<close>

theorem missing_model_is_fatal:
  "callModel s \<lparr>configurable = None\<rparr> = Inl (Error ''Model not provided in config'')
   \<and> callModel s \<lparr>configurable = Some \<lparr>model = None\<rparr>\<rparr> =
       Inl (Error ''Model not provided in config'')
   \<and> steps (Suc n) (\<lambda>s. callModel s \<lparr>configurable = None\<rparr>) registry (start s) =
       Inl (Error ''Model not provided in config'')
   \<and> invoke (Suc n) (\<lambda>s. callModel s \<lparr>configurable = None\<rparr>) registry s =
       Inl (Error ''Model not provided in config'')
   \<and> invoke (Suc n) (\<lambda>s. callModel s \<lparr>configurable = Some \<lparr>model = None\<rparr>\<rparr>) registry s =
       Inl (Error ''Model not provided in config'')"
  by (simp add: callModel_def invoke_def step_def start_def)

section \<open>Tool calls and their results\<close>

lemma until_next_ai_append_ai:
  "is_ai x \<Longrightarrow> until_next_ai (xs @ x # ys) = until_next_ai xs"
  by (simp add: until_next_ai_def takeWhile_tail)

lemma answered_append_ai:
  "is_ai x \<Longrightarrow> answered (xs @ x # ys) = (answered xs \<and> answered (x # ys))"
  by (induction xs) (auto simp: until_next_ai_append_ai)

lemma answered_no_ai: "\<forall>x\<in>set ms. \<not> is_ai x \<Longrightarrow> answered ms"
  by (induction ms) auto

lemma dispatch_not_ai: "\<not> is_ai (dispatch registry call)"
  by (simp add: dispatch_def)

lemma until_next_ai_dispatch:
  "until_next_ai (map (dispatch registry) calls) = map (dispatch registry) calls"
  by (simp add: until_next_ai_def dispatch_def)

lemma tool_ids_dispatch: "tool_ids (map (dispatch registry) calls) = map tc_id calls"
  by (induction calls) (simp_all add: dispatch_def)

lemma answered_final:
  assumes "answered ms" and "calls = None \<or> calls = Some []"
  shows "answered (ms @ [AIMessage text calls])"
  using assms by (auto simp: answered_append_ai until_next_ai_def calls_of_def)

lemma toolNode_last:
  "toolNode registry \<lparr>messages = ms @ [m]\<rparr> = \<lparr>messages = map (dispatch registry) (calls_of m)\<rparr>"
  by (cases ms) (auto simp: toolNode_def calls_of_def split: option.splits)

lemma answered_after_tools:
  assumes "answered ms" and "is_ai m"
  shows "answered (ms @ [m] @ map (dispatch registry) (calls_of m))"
proof -
  have "answered (m # map (dispatch registry) (calls_of m))"
    by (simp add: until_next_ai_dispatch tool_ids_dispatch answered_no_ai dispatch_not_ai)
  with assms show ?thesis
    by (simp add: answered_append_ai)
qed

lemma step_settled:
  assumes ag: "agent = agent_graph m \<or> agent = agent_skills p m"
    and m: "messages (st c) = seed @ added"
    and inv: "settled (node c) added"
    and stp: "step agent registry c = Inr c'"
  shows "\<exists>added'. messages (st c') = seed @ added' \<and> settled (node c') added'"
proof (cases "node c")
  case Agent
  from stp Agent obtain input u where a: "agent (st c) = Inr (input, u)"
    by (auto simp: step_def split: sum.splits)
  from ag a obtain t calls where u: "u = \<lparr>messages = [AIMessage t calls]\<rparr>"
    using agent_graph_update agent_skills_update by blast
  let ?s' = "\<lparr>messages = messages (st c) @ [AIMessage t calls]\<rparr>"
  have ans: "answered added" and h: "added = [] \<or> is_ai (hd added)"
    using inv Agent by (simp_all add: settled_def)
  have h': "is_ai (hd (added @ [AIMessage t calls]))"
    using h by (cases added) auto
  have r: "shouldContinue ?s' =
      Inr (case calls of None \<Rightarrow> Route_end | Some [] \<Rightarrow> Route_end | Some (x # xs) \<Rightarrow> Route_tools)"
    by (simp add: shouldContinue_last)
  show ?thesis
  proof (cases "calls = None \<or> calls = Some []")
    case True
    then have "shouldContinue ?s' = Inr Route_end" using r by auto
    with stp Agent a u have "c' = \<lparr>node = END, st = ?s',
        invocations = invocations c @ [\<lparr>seen = messages (st c), sent = input\<rparr>]\<rparr>"
      by (simp add: step_def apply_update_def reducer_def)
    then have "messages (st c') = seed @ (added @ [AIMessage t calls])" and "node c' = END"
      using m by simp_all
    moreover have "settled END (added @ [AIMessage t calls])"
      using ans True h' by (simp add: settled_def answered_final)
    ultimately show ?thesis by metis
  next
    case False
    then obtain x xs where cs: "calls = Some (x # xs)"
      by (cases calls; cases "the calls") auto
    then have "shouldContinue ?s' = Inr Route_tools" using r by simp
    with stp Agent a u have "c' = \<lparr>node = Tools, st = ?s',
        invocations = invocations c @ [\<lparr>seen = messages (st c), sent = input\<rparr>]\<rparr>"
      by (simp add: step_def apply_update_def reducer_def)
    then have "messages (st c') = seed @ (added @ [AIMessage t calls])" and "node c' = Tools"
      using m by simp_all
    moreover have "settled Tools (added @ [AIMessage t calls])"
      using ans h' by (simp add: settled_def)
    ultimately show ?thesis by metis
  qed
next
  case Tools
  with inv have ne: "added \<noteq> []" and ai: "is_ai (last added)"
    and ans: "answered (butlast added)" and h: "is_ai (hd added)"
    by (auto simp: settled_def)
  let ?ms = "seed @ butlast added" and ?m = "last added"
  have sc: "st c = \<lparr>messages = ?ms @ [?m]\<rparr>" using m ne by (cases "st c") simp
  have "toolNode registry (st c) = \<lparr>messages = map (dispatch registry) (calls_of ?m)\<rparr>"
    using toolNode_last [of registry ?ms ?m] sc by simp
  then have "messages (st c') = seed @ (butlast added @ [?m] @ map (dispatch registry) (calls_of ?m))"
    using stp Tools sc by (auto simp: step_def apply_update_def reducer_def)
  moreover have "node c' = Agent" using stp Tools by (auto simp: step_def)
  moreover have "answered (butlast added @ [?m] @ map (dispatch registry) (calls_of ?m))"
    using answered_after_tools [OF ans ai] .
  moreover have "is_ai (hd (butlast added @ [?m] @ map (dispatch registry) (calls_of ?m)))"
    using h ne by (cases added) auto
  ultimately have "messages (st c') = seed @ (butlast added @ [?m] @ map (dispatch registry) (calls_of ?m))
      \<and> settled (node c') (butlast added @ [?m] @ map (dispatch registry) (calls_of ?m))"
    by (simp add: settled_def)
  then show ?thesis by blast
next
  case END
  with stp have "c' = c" by (simp add: step_def)
  with inv m show ?thesis by auto
qed

lemma steps_settled:
  assumes ag: "agent = agent_graph m \<or> agent = agent_skills p m"
  shows "messages (st c) = seed @ added \<Longrightarrow> settled (node c) added \<Longrightarrow>
         steps n agent registry c = Inr c' \<Longrightarrow>
         \<exists>added'. messages (st c') = seed @ added' \<and> settled (node c') added'"
proof (induction n arbitrary: c added)
  case 0
  then show ?case by auto
next
  case (Suc n)
  from Suc.prems(3) obtain d where d: "step agent registry c = Inr d"
    and r: "steps n agent registry d = Inr c'"
    by (auto split: sum.splits)
  from step_settled [OF ag Suc.prems(1) Suc.prems(2) d] obtain added1 where
    "messages (st d) = seed @ added1" and "settled (node d) added1"
    by blast
  from Suc.IH [OF this r] show ?case .
qed

lemma answered_append:
  assumes "answered seed" and "answered added" and "added = [] \<or> is_ai (hd added)"
  shows "answered (seed @ added)"
proof (cases added)
  case Nil
  with assms show ?thesis by simp
next
  case (Cons x xs)
  with assms have "is_ai x" by simp
  with assms Cons show ?thesis by (simp add: answered_append_ai)
qed

text \<open>What being answered gives for one assistant message of a transcript: when the ids
  of its calls differ from each other, each of them is carried by exactly one of the tool
  results in front of the next assistant message.\<close>

lemma count_list_distinct: "distinct xs \<Longrightarrow> x \<in> set xs \<Longrightarrow> count_list xs x = 1"
  by (induction xs) auto

lemma answered_exactly_one:
  assumes "answered (xs @ AIMessage t (Some calls) # rest)"
    and "distinct (map tc_id calls)" and "call \<in> set calls"
  shows "count_list (tool_ids (until_next_ai rest)) (tc_id call) = 1"
proof -
  have "answered (AIMessage t (Some calls) # rest)"
    using assms(1) by (simp add: answered_append_ai)
  then have "tool_ids (until_next_ai rest) = map tc_id calls"
    by (simp add: calls_of_def)
  with assms(2,3) show ?thesis
    by (simp add: count_list_distinct)
qed

subsection \<open>Two runs of the example model\<close>

lemma scripted_run_graph:
  "steps 3 (agent_graph scripted_model) search_registry
     (start \<lparr>messages = [HumanMessage ''search X'']\<rparr>) =
   Inr \<lparr>node = END,
        st = \<lparr>messages =
          [HumanMessage ''search X'',
           AIMessage ''looking''
             (Some [ToolCall ''1'' ''search'' ''X'', ToolCall ''2'' ''unknown_tool'' ''Y'']),
           ToolMessage ''1'' ''result text'',
           ToolMessage ''2'' (''Error: unknown tool '' @ [CHR 0x27] @ ''unknown_tool'' @ [CHR 0x27]),
           AIMessage ''done'' (Some [])]\<rparr>,
        invocations =
          [\<lparr>seen = [HumanMessage ''search X''], sent = [HumanMessage ''search X'']\<rparr>,
           \<lparr>seen =
              [HumanMessage ''search X'',
               AIMessage ''looking''
                 (Some [ToolCall ''1'' ''search'' ''X'', ToolCall ''2'' ''unknown_tool'' ''Y'']),
               ToolMessage ''1'' ''result text'',
               ToolMessage ''2'' (''Error: unknown tool '' @ [CHR 0x27] @ ''unknown_tool'' @ [CHR 0x27])],
            sent =
              [HumanMessage ''search X'',
               AIMessage ''looking''
                 (Some [ToolCall ''1'' ''search'' ''X'', ToolCall ''2'' ''unknown_tool'' ''Y'']),
               ToolMessage ''1'' ''result text'',
               ToolMessage ''2'' (''Error: unknown tool '' @ [CHR 0x27] @ ''unknown_tool'' @ [CHR 0x27])]\<rparr>]\<rparr>"
  by (simp add: numeral_3_eq_3 step_def start_def agent_graph_def invoke_model_def
        apply_update_def reducer_def shouldContinue_def toolNode_def dispatch_def
        scripted_model_def search_registry_def)

lemma scripted_run_skills:
  "steps 3 (agent_skills p scripted_model) search_registry
     (start \<lparr>messages = [HumanMessage ''search X'']\<rparr>) =
   Inr \<lparr>node = END,
        st = \<lparr>messages =
          [HumanMessage ''search X'',
           AIMessage ''looking''
             (Some [ToolCall ''1'' ''search'' ''X'', ToolCall ''2'' ''unknown_tool'' ''Y'']),
           ToolMessage ''1'' ''result text'',
           ToolMessage ''2'' (''Error: unknown tool '' @ [CHR 0x27] @ ''unknown_tool'' @ [CHR 0x27]),
           AIMessage ''done'' (Some [])]\<rparr>,
        invocations =
          [\<lparr>seen = [HumanMessage ''search X''],
            sent = [SystemMessage p, HumanMessage ''search X'']\<rparr>,
           \<lparr>seen =
              [HumanMessage ''search X'',
               AIMessage ''looking''
                 (Some [ToolCall ''1'' ''search'' ''X'', ToolCall ''2'' ''unknown_tool'' ''Y'']),
               ToolMessage ''1'' ''result text'',
               ToolMessage ''2'' (''Error: unknown tool '' @ [CHR 0x27] @ ''unknown_tool'' @ [CHR 0x27])],
            sent =
              [HumanMessage ''search X'',
               AIMessage ''looking''
                 (Some [ToolCall ''1'' ''search'' ''X'', ToolCall ''2'' ''unknown_tool'' ''Y'']),
               ToolMessage ''1'' ''result text'',
               ToolMessage ''2'' (''Error: unknown tool '' @ [CHR 0x27] @ ''unknown_tool'' @ [CHR 0x27])]\<rparr>]\<rparr>"
  by (simp add: numeral_3_eq_3 step_def start_def agent_skills_def invoke_model_def
        apply_update_def reducer_def shouldContinue_def toolNode_def dispatch_def
        scripted_model_def search_registry_def)

text \<open>
  Claim C1. In every configuration that a run of either graph reaches, from any state and
  after any number of steps, the state is the state the run started from followed by the
  messages the run has added, and these are in order: each assistant message among them is
  followed, before the next assistant message, by tool results whose ids are exactly the
  ids of its tool calls, one result for each call and in the order of the calls (in front
  of the tool node this holds for all but the last assistant message, whose calls are
  served next). So the messages added to a transcript that \<open>invoke\<close> returns are
  answered, and the whole transcript is when the state the run started from was, as it is
  when it holds no assistant message.
\<close>

theorem tool_results_answer_tool_calls:
  assumes "agent = agent_graph m \<or> agent = agent_skills p m"
    and "steps n agent registry (start s) = Inr c"
  shows "(\<exists>added. messages (st c) = messages s @ added
            \<and> settled (node c) added
            \<and> (node c \<noteq> Tools \<longrightarrow>
                 answered added \<and> (answered (messages s) \<longrightarrow> answered (messages (st c)))))
         \<and> (\<forall>s'. invoke n agent registry s = Inr s' \<longrightarrow>
              (\<exists>added. messages s' = messages s @ added \<and> answered added
                 \<and> (answered (messages s) \<longrightarrow> answered (messages s'))))"
proof -
  have "messages (st (start s)) = messages s @ []" and "settled (node (start s)) []"
    by (simp_all add: settled_def start_def)
  from steps_settled [OF assms(1) this assms(2)] obtain added where
    m: "messages (st c) = messages s @ added" and t: "settled (node c) added"
    by blast
  have e: "node c \<noteq> Tools \<longrightarrow>
             answered added \<and> (answered (messages s) \<longrightarrow> answered (messages (st c)))"
    using m t by (auto simp: settled_def intro: answered_append)
  have "\<forall>s'. invoke n agent registry s = Inr s' \<longrightarrow>
              (\<exists>added. messages s' = messages s @ added \<and> answered added
                 \<and> (answered (messages s) \<longrightarrow> answered (messages s')))"
    using assms(2) e m by (auto simp: invoke_def split: if_splits)
  with m t e show ?thesis by blast
qed

theorem tool_results_answer_tool_calls_witness:
  "\<exists>s'. invoke 3 (agent_graph scripted_model) search_registry
           \<lparr>messages = [HumanMessage ''search X'']\<rparr> = Inr s'
        \<and> answered (messages s')
        \<and> messages s' =
            [HumanMessage ''search X'',
             AIMessage ''looking''
               (Some [ToolCall ''1'' ''search'' ''X'', ToolCall ''2'' ''unknown_tool'' ''Y'']),
             ToolMessage ''1'' ''result text'',
             ToolMessage ''2'' (''Error: unknown tool '' @ [CHR 0x27] @ ''unknown_tool'' @ [CHR 0x27]),
             AIMessage ''done'' (Some [])]"
proof -
  let ?s = "\<lparr>messages = [HumanMessage ''search X'']\<rparr>"
  obtain c where h2: "steps 3 (agent_graph scripted_model) search_registry (start ?s) = Inr c"
    and e: "node c = END"
    and m: "messages (st c) =
            [HumanMessage ''search X'',
             AIMessage ''looking''
               (Some [ToolCall ''1'' ''search'' ''X'', ToolCall ''2'' ''unknown_tool'' ''Y'']),
             ToolMessage ''1'' ''result text'',
             ToolMessage ''2'' (''Error: unknown tool '' @ [CHR 0x27] @ ''unknown_tool'' @ [CHR 0x27]),
             AIMessage ''done'' (Some [])]"
    using scripted_run_graph by simp
  have h1: "agent_graph scripted_model = agent_graph scripted_model
            \<or> agent_graph scripted_model = agent_skills (skillsPrompt []) scripted_model"
    by simp
  have h3: "answered (messages ?s)"
    by simp
  have i: "invoke 3 (agent_graph scripted_model) search_registry ?s = Inr (st c)"
    using h2 e by (simp add: invoke_def)
  from tool_results_answer_tool_calls [OF h1 h2] h3 i
  have "answered (messages (st c))" by blast
  with i m show ?thesis by blast
qed

section \<open>The skills prompt\<close>

lemma step_skills_agent:
  assumes "node c = Agent" and "step (agent_skills p m) registry c = Inr c'"
  shows "\<exists>t calls.
           messages (st c') = messages (st c) @ [AIMessage t calls]
           \<and> invocations c' = invocations c @
                [\<lparr>seen = messages (st c),
                  sent = (if length (messages (st c)) = 1
                          then SystemMessage p # messages (st c) else messages (st c))\<rparr>]
           \<and> node c' = (if calls = None \<or> calls = Some [] then END else Tools)"
proof -
  from assms obtain input u where a: "agent_skills p m (st c) = Inr (input, u)"
    by (auto simp: step_def split: sum.splits)
  then obtain t calls where u: "u = \<lparr>messages = [AIMessage t calls]\<rparr>"
    using agent_skills_update by blast
  have i: "input = (if length (messages (st c)) = 1
                    then SystemMessage p # messages (st c) else messages (st c))"
    using a by (auto simp: agent_skills_def Let_def split: if_splits sum.splits)
  let ?s' = "\<lparr>messages = messages (st c) @ [AIMessage t calls]\<rparr>"
  have r: "shouldContinue ?s' =
      Inr (if calls = None \<or> calls = Some [] then Route_end else Route_tools)"
    by (cases calls; cases "the calls") (simp_all add: shouldContinue_last)
  have "c' = \<lparr>node = (if calls = None \<or> calls = Some [] then END else Tools), st = ?s',
        invocations = invocations c @ [\<lparr>seen = messages (st c), sent = input\<rparr>]\<rparr>"
    using assms a u r by (auto simp: step_def apply_update_def reducer_def)
  with i show ?thesis by auto
qed

lemma step_tools:
  assumes "node c = Tools" and "step agent registry c = Inr c'"
  shows "node c' = Agent \<and> invocations c' = invocations c
         \<and> (messages (st c) \<noteq> [] \<longrightarrow>
              messages (st c') = messages (st c) @
                map (dispatch registry) (calls_of (last (messages (st c)))))
         \<and> (\<exists>added. messages (st c') = messages (st c) @ added
                \<and> (\<forall>x\<in>set added. \<not> is_system x \<and> \<not> is_ai x))"
proof -
  have c': "c' = \<lparr>node = Agent, st = apply_update (st c) (toolNode registry (st c)),
               invocations = invocations c\<rparr>"
    using assms by (simp add: step_def)
  have t: "messages (st c) \<noteq> [] \<longrightarrow> messages (toolNode registry (st c)) =
          map (dispatch registry) (calls_of (last (messages (st c))))"
    by (auto simp: toolNode_def calls_of_def split: list.splits option.splits)
  have e: "messages (st c) = [] \<longrightarrow> messages (toolNode registry (st c)) = []"
    by (simp add: toolNode_def)
  have "\<forall>x\<in>set (messages (toolNode registry (st c))). \<not> is_system x \<and> \<not> is_ai x"
    using t e by (cases "messages (st c) = []") (auto simp: dispatch_def)
  with c' t show ?thesis
    by (auto simp: apply_update_def reducer_def)
qed

lemma step_end: "node c = END \<Longrightarrow> step agent registry c = Inr c' \<Longrightarrow> c' = c"
  by (simp add: step_def)

lemma past_first_turn_step:
  assumes "past_first_turn c" and "step (agent_skills p m) registry c = Inr c'"
  shows "past_first_turn c'
         \<and> (\<exists>new. invocations c' = invocations c @ new \<and> (\<forall>e\<in>set new. sent e = seen e))"
proof (cases "node c")
  case Agent
  with assms(1) have l: "2 \<le> length (messages (st c))"
    by (simp add: past_first_turn_def)
  from step_skills_agent [OF Agent assms(2)] l show ?thesis
    by (auto simp: past_first_turn_def)
next
  case Tools
  with assms(1) have "2 \<le> length (messages (st c))
      \<or> (messages (st c) \<noteq> [] \<and> calls_of (last (messages (st c))) \<noteq> [])"
    by (simp add: past_first_turn_def)
  moreover from step_tools [OF Tools assms(2)]
  have "node c' = Agent" and "invocations c' = invocations c"
    and "messages (st c) \<noteq> [] \<longrightarrow>
              messages (st c') = messages (st c) @
                map (dispatch registry) (calls_of (last (messages (st c))))"
    and "\<exists>added. messages (st c') = messages (st c) @ added"
    by auto
  ultimately have "2 \<le> length (messages (st c'))"
    by (cases "messages (st c)"; cases "calls_of (last (messages (st c)))") auto
  then show ?thesis using \<open>invocations c' = invocations c\<close>
    by (simp add: past_first_turn_def)
next
  case END
  with assms show ?thesis by (auto dest: step_end)
qed

lemma past_first_turn_steps:
  "past_first_turn c \<Longrightarrow> steps n (agent_skills p m) registry c = Inr c' \<Longrightarrow>
     past_first_turn c'
     \<and> (\<exists>new. invocations c' = invocations c @ new \<and> (\<forall>e\<in>set new. sent e = seen e))"
proof (induction n arbitrary: c)
  case 0
  then show ?case by simp
next
  case (Suc n)
  from Suc.prems(2) obtain d where d: "step (agent_skills p m) registry c = Inr d"
    and r: "steps n (agent_skills p m) registry d = Inr c'"
    by (auto split: sum.splits)
  from past_first_turn_step [OF Suc.prems(1) d] obtain new1 where
    pd: "past_first_turn d" and n1: "invocations d = invocations c @ new1"
    and s1: "\<forall>e\<in>set new1. sent e = seen e"
    by blast
  from Suc.IH [OF pd r] obtain new2 where
    pc: "past_first_turn c'" and n2: "invocations c' = invocations d @ new2"
    and s2: "\<forall>e\<in>set new2. sent e = seen e"
    by blast
  have "invocations c' = invocations c @ (new1 @ new2)" using n1 n2 by simp
  moreover have "\<forall>e\<in>set (new1 @ new2). sent e = seen e" using s1 s2 by auto
  ultimately show ?case using pc by blast
qed

lemma first_step_skills:
  assumes "step (agent_skills p m) registry (start s) = Inr d"
  shows "past_first_turn d
         \<and> invocations d =
             [\<lparr>seen = messages s,
               sent = (if length (messages s) = 1
                       then SystemMessage p # messages s else messages s)\<rparr>]"
proof -
  have n: "node (start s) = Agent" by (simp add: start_def)
  from step_skills_agent [OF n assms] obtain t calls where
    m: "messages (st d) = messages s @ [AIMessage t calls]"
    and i: "invocations d = [\<lparr>seen = messages s,
               sent = (if length (messages s) = 1
                       then SystemMessage p # messages s else messages s)\<rparr>]"
    and k: "node d = (if calls = None \<or> calls = Some [] then END else Tools)"
    by (auto simp: start_def)
  have "past_first_turn d"
  proof (cases "calls = None \<or> calls = Some []")
    case True
    with k show ?thesis by (simp add: past_first_turn_def)
  next
    case False
    then have "calls_of (AIMessage t calls) \<noteq> []"
      by (cases calls) (auto simp: calls_of_def)
    with k m False show ?thesis by (simp add: past_first_turn_def)
  qed
  with i show ?thesis by simp
qed

lemma skills_invocations:
  assumes "steps (Suc n) (agent_skills p m) registry (start s) = Inr c"
  shows "\<exists>rest. invocations c =
             \<lparr>seen = messages s,
               sent = (if length (messages s) = 1
                       then SystemMessage p # messages s else messages s)\<rparr> # rest
           \<and> (\<forall>e\<in>set rest. sent e = seen e)"
proof -
  from assms obtain d where d: "step (agent_skills p m) registry (start s) = Inr d"
    and r: "steps n (agent_skills p m) registry d = Inr c"
    by (auto split: sum.splits)
  from first_step_skills [OF d] past_first_turn_steps [OF _ r]
  show ?thesis by auto
qed

text \<open>
  Claim C3, as the specification words it, does not hold: the agent node does not look for
  one human message and no assistant message. A state of a system message and a human
  message meets that condition, and the model is called without the skills prompt, in the
  first call and so in the whole run; a state of a single assistant message does not meet
  it, and the prompt is put in front.
\<close>

theorem skills_prompt_injection_counterexample:
  "first_turn_spec [SystemMessage ''be brief'', HumanMessage ''hi'']
   \<and> agent_skills (skillsPrompt []) plain_model \<lparr>messages = [SystemMessage ''be brief'', HumanMessage ''hi'']\<rparr> =
       Inr ([SystemMessage ''be brief'', HumanMessage ''hi''], \<lparr>messages = [AIMessage ''hello'' None]\<rparr>)
   \<and> steps 1 (agent_skills (skillsPrompt []) plain_model) search_registry
         (start \<lparr>messages = [SystemMessage ''be brief'', HumanMessage ''hi'']\<rparr>) =
       Inr \<lparr>node = END,
            st = \<lparr>messages = [SystemMessage ''be brief'', HumanMessage ''hi'', AIMessage ''hello'' None]\<rparr>,
            invocations = [\<lparr>seen = [SystemMessage ''be brief'', HumanMessage ''hi''],
                            sent = [SystemMessage ''be brief'', HumanMessage ''hi'']\<rparr>]\<rparr>
   \<and> \<not> first_turn_spec [AIMessage ''earlier'' None]
   \<and> agent_skills (skillsPrompt []) plain_model \<lparr>messages = [AIMessage ''earlier'' None]\<rparr> =
       Inr ([SystemMessage (skillsPrompt []), AIMessage ''earlier'' None], \<lparr>messages = [AIMessage ''hello'' None]\<rparr>)"
  by (simp add: first_turn_spec_def agent_skills_def invoke_model_def plain_model_def
        step_def start_def apply_update_def reducer_def shouldContinue_def)

text \<open>
  Claim C3, amended. The agent node puts the skills prompt in front of the model's input
  exactly when the state holds exactly one message, whatever its kind. In a run that
  starts from a single message this is the first call of the model and no other: every
  later call is handed the state as it is. In a run that starts from any other number of
  messages no call is handed the prompt.
\<close>

theorem skills_prompt_injection:
  "(agent_skills p m s = Inr (input, u) \<longrightarrow>
      input = (if length (messages s) = 1 then SystemMessage p # messages s else messages s))
   \<and> (steps n (agent_skills p m) registry (start s) = Inr c \<longrightarrow>
       (length (messages s) = 1 \<and> 0 < n \<longrightarrow>
          (\<exists>rest. invocations c =
                    \<lparr>seen = messages s, sent = SystemMessage p # messages s\<rparr> # rest
                  \<and> (\<forall>e\<in>set rest. sent e = seen e)))
       \<and> (length (messages s) \<noteq> 1 \<longrightarrow> (\<forall>e\<in>set (invocations c). sent e = seen e)))"
proof (intro conjI impI)
  assume "agent_skills p m s = Inr (input, u)"
  then show "input = (if length (messages s) = 1 then SystemMessage p # messages s else messages s)"
    by (auto simp: agent_skills_def Let_def split: if_splits sum.splits)
next
  assume r: "steps n (agent_skills p m) registry (start s) = Inr c"
    and l: "length (messages s) = 1 \<and> 0 < n"
  then obtain k where "n = Suc k" by (cases n) auto
  with r skills_invocations [of k p m registry s c] l
  show "\<exists>rest. invocations c = \<lparr>seen = messages s, sent = SystemMessage p # messages s\<rparr> # rest
                  \<and> (\<forall>e\<in>set rest. sent e = seen e)"
    by auto
next
  assume r: "steps n (agent_skills p m) registry (start s) = Inr c"
    and l: "length (messages s) \<noteq> 1"
  show "\<forall>e\<in>set (invocations c). sent e = seen e"
  proof (cases n)
    case 0
    with r show ?thesis by (auto simp: start_def)
  next
    case (Suc k)
    with r have "steps (Suc k) (agent_skills p m) registry (start s) = Inr c" by simp
    from skills_invocations [OF this] obtain rest where
      i: "invocations c = \<lparr>seen = messages s,
               sent = (if length (messages s) = 1
                       then SystemMessage p # messages s else messages s)\<rparr> # rest"
      and a: "\<forall>e\<in>set rest. sent e = seen e"
      by blast
    from i l have "invocations c = \<lparr>seen = messages s, sent = messages s\<rparr> # rest" by simp
    with a show ?thesis by simp
  qed
qed

theorem skills_prompt_injection_witness:
  "(\<exists>u. agent_skills (skillsPrompt []) plain_model \<lparr>messages = [HumanMessage ''hi'']\<rparr> =
           Inr ([SystemMessage (skillsPrompt []), HumanMessage ''hi''], u))
   \<and> (\<exists>c rest. steps 3 (agent_skills (skillsPrompt []) scripted_model) search_registry
                  (start \<lparr>messages = [HumanMessage ''search X'']\<rparr>) = Inr c
         \<and> invocations c =
             \<lparr>seen = [HumanMessage ''search X''],
              sent = [SystemMessage (skillsPrompt []), HumanMessage ''search X'']\<rparr> # rest
         \<and> length rest = 1 \<and> list_all (\<lambda>e. sent e = seen e) rest)
   \<and> (\<exists>c. steps 1 (agent_skills (skillsPrompt []) plain_model) search_registry
              (start \<lparr>messages = [SystemMessage ''be brief'', HumanMessage ''hi'']\<rparr>) = Inr c
         \<and> length (invocations c) = 1 \<and> list_all (\<lambda>e. sent e = seen e) (invocations c))"
proof -
  let ?s1 = "\<lparr>messages = [HumanMessage ''hi'']\<rparr>"
  let ?s2 = "\<lparr>messages = [HumanMessage ''search X'']\<rparr>"
  let ?s3 = "\<lparr>messages = [SystemMessage ''be brief'', HumanMessage ''hi'']\<rparr>"
  have h1: "agent_skills (skillsPrompt []) plain_model ?s1 =
              Inr ([SystemMessage (skillsPrompt []), HumanMessage ''hi''], \<lparr>messages = [AIMessage ''hello'' None]\<rparr>)"
    by (simp add: agent_skills_def invoke_model_def plain_model_def)
  obtain c2 where h2: "steps 3 (agent_skills (skillsPrompt []) scripted_model) search_registry (start ?s2) = Inr c2"
    and l2: "length (invocations c2) = 2"
    using scripted_run_skills by simp
  obtain c3 where h3: "steps 1 (agent_skills (skillsPrompt []) plain_model) search_registry (start ?s3) = Inr c3"
    and l3: "length (invocations c3) = 1"
    by (simp add: agent_skills_def invoke_model_def plain_model_def
        step_def start_def apply_update_def reducer_def shouldContinue_def)
  have g2: "length (messages ?s2) = 1 \<and> 0 < (3::nat)" by simp
  have g3: "length (messages ?s3) \<noteq> 1" by simp
  from skills_prompt_injection [where p = "skillsPrompt []" and m = scripted_model and n = 3
      and registry = search_registry and s = ?s2 and c = c2 and input = "[]"
      and u = "\<lparr>messages = []\<rparr>"] h2 g2
  obtain rest where r: "invocations c2 =
      \<lparr>seen = [HumanMessage ''search X''], sent = [SystemMessage (skillsPrompt []), HumanMessage ''search X'']\<rparr> # rest"
    and a: "\<forall>e\<in>set rest. sent e = seen e"
    by auto
  from r l2 have "length rest = 1" by simp
  with h2 r a have w2: "\<exists>c rest. steps 3 (agent_skills (skillsPrompt []) scripted_model) search_registry
                  (start ?s2) = Inr c
         \<and> invocations c =
             \<lparr>seen = [HumanMessage ''search X''],
              sent = [SystemMessage (skillsPrompt []), HumanMessage ''search X'']\<rparr> # rest
         \<and> length rest = 1 \<and> list_all (\<lambda>e. sent e = seen e) rest"
    by (auto simp: list_all_iff)
  from skills_prompt_injection [where p = "skillsPrompt []" and m = plain_model and n = 1
      and registry = search_registry and s = ?s3 and c = c3 and input = "[]"
      and u = "\<lparr>messages = []\<rparr>"] h3 g3
  have "\<forall>e\<in>set (invocations c3). sent e = seen e" by blast
  with h3 l3 have w3: "\<exists>c. steps 1 (agent_skills (skillsPrompt []) plain_model) search_registry (start ?s3) = Inr c
         \<and> length (invocations c) = 1 \<and> list_all (\<lambda>e. sent e = seen e) (invocations c)"
    by (auto simp: list_all_iff)
  from h1 have w1: "\<exists>u. agent_skills (skillsPrompt []) plain_model ?s1 =
           Inr ([SystemMessage (skillsPrompt []), HumanMessage ''hi''], u)"
    using skills_prompt_injection [where p = "skillsPrompt []" and m = plain_model and s = ?s1
        and input = "[SystemMessage (skillsPrompt []), HumanMessage ''hi'']"
        and u = "\<lparr>messages = [AIMessage ''hello'' None]\<rparr>"]
    by simp
  show ?thesis by (intro conjI w1 w2 w3)
qed

section \<open>The skills prompt stays out of the state\<close>

lemma step_skills_grows:
  assumes "step (agent_skills p m) registry c = Inr c'"
  shows "\<exists>added new. messages (st c') = messages (st c) @ added
           \<and> (\<forall>x\<in>set added. \<not> is_system x)
           \<and> invocations c' = invocations c @ new
           \<and> (\<forall>e\<in>set new. seen e = messages (st c))"
proof (cases "node c")
  case Agent
  from step_skills_agent [OF Agent assms] show ?thesis by auto
next
  case Tools
  from step_tools [OF Tools assms] show ?thesis by auto
next
  case END
  from step_end [OF END assms] show ?thesis by simp
qed

lemma steps_skills_grows:
  "steps n (agent_skills p m) registry c = Inr c' \<Longrightarrow>
   \<forall>e\<in>set (invocations c). \<exists>later. messages (st c) = seen e @ later \<Longrightarrow>
     (\<exists>added. messages (st c') = messages (st c) @ added \<and> (\<forall>x\<in>set added. \<not> is_system x))
     \<and> (\<forall>e\<in>set (invocations c'). \<exists>later. messages (st c') = seen e @ later)"
proof (induction n arbitrary: c)
  case 0
  then show ?case by simp
next
  case (Suc n)
  from Suc.prems(1) obtain d where d: "step (agent_skills p m) registry c = Inr d"
    and r: "steps n (agent_skills p m) registry d = Inr c'"
    by (auto split: sum.splits)
  from step_skills_grows [OF d] obtain added new where
    g: "messages (st d) = messages (st c) @ added" and ns: "\<forall>x\<in>set added. \<not> is_system x"
    and i: "invocations d = invocations c @ new" and sn: "\<forall>e\<in>set new. seen e = messages (st c)"
    by blast
  have pd: "\<forall>e\<in>set (invocations d). \<exists>later. messages (st d) = seen e @ later"
  proof
    fix e assume "e \<in> set (invocations d)"
    then consider "e \<in> set (invocations c)" | "e \<in> set new" using i by auto
    then show "\<exists>later. messages (st d) = seen e @ later"
    proof cases
      case 1
      with Suc.prems(2) obtain later where "messages (st c) = seen e @ later" by blast
      with g have "messages (st d) = seen e @ (later @ added)" by simp
      then show ?thesis by blast
    next
      case 2
      with sn g show ?thesis by auto
    qed
  qed
  from Suc.IH [OF r pd] obtain added' where
    g': "messages (st c') = messages (st d) @ added'" and ns': "\<forall>x\<in>set added'. \<not> is_system x"
    and pc: "\<forall>e\<in>set (invocations c'). \<exists>later. messages (st c') = seen e @ later"
    by blast
  have "messages (st c') = messages (st c) @ (added @ added')" using g g' by simp
  moreover have "\<forall>x\<in>set (added @ added'). \<not> is_system x" using ns ns' by auto
  ultimately show ?case using pc by blast
qed

lemma skills_later_invocations:
  assumes "steps n (agent_skills p m) registry (start s) = Inr c"
  shows "\<forall>e\<in>set (tl (invocations c)). sent e = seen e"
proof (cases n)
  case 0
  with assms show ?thesis by (auto simp: start_def)
next
  case (Suc k)
  with assms have "steps (Suc k) (agent_skills p m) registry (start s) = Inr c" by simp
  from skills_invocations [OF this] show ?thesis by auto
qed

text \<open>
  Claim C10. The update of the agent node is the model's answer alone. Whatever a run
  reaches, its state is the state it started from followed by messages none of which is a
  system message; so the prompt, when the starting state does not hold it, is in no state
  of the run and in none that \<open>invoke\<close> returns. Every call of the model after the
  first is handed a state of the run as it was then, an initial part of the final one, and
  so an input without the prompt.
\<close>

theorem skills_prompt_not_in_transcript:
  "(agent_skills p m s = Inr (input, u) \<longrightarrow>
      (\<exists>text calls. u = \<lparr>messages = [AIMessage text calls]\<rparr>))
   \<and> (steps n (agent_skills p m) registry (start s) = Inr c \<longrightarrow>
        (\<exists>added. messages (st c) = messages s @ added \<and> (\<forall>x\<in>set added. \<not> is_system x))
        \<and> (SystemMessage p \<notin> set (messages s) \<longrightarrow>
             SystemMessage p \<notin> set (messages (st c))
             \<and> (\<forall>e\<in>set (tl (invocations c)). SystemMessage p \<notin> set (sent e)))
        \<and> (\<forall>e\<in>set (tl (invocations c)).
              sent e = seen e \<and> (\<exists>later. messages (st c) = seen e @ later)))
   \<and> (invoke n (agent_skills p m) registry s = Inr s' \<longrightarrow>
        (\<exists>added. messages s' = messages s @ added \<and> (\<forall>x\<in>set added. \<not> is_system x)))"
proof -
  have a: "agent_skills p m s = Inr (input, u) \<longrightarrow>
      (\<exists>text calls. u = \<lparr>messages = [AIMessage text calls]\<rparr>)"
    using agent_skills_update by blast
  have b: "(\<exists>added. messages (st c) = messages s @ added \<and> (\<forall>x\<in>set added. \<not> is_system x))
        \<and> (SystemMessage p \<notin> set (messages s) \<longrightarrow>
             SystemMessage p \<notin> set (messages (st c))
             \<and> (\<forall>e\<in>set (tl (invocations c)). SystemMessage p \<notin> set (sent e)))
        \<and> (\<forall>e\<in>set (tl (invocations c)).
              sent e = seen e \<and> (\<exists>later. messages (st c) = seen e @ later))"
    if r: "steps n (agent_skills p m) registry (start s) = Inr c" for c
  proof -
    have "\<forall>e\<in>set (invocations (start s)). \<exists>later. messages (st (start s)) = seen e @ later"
      by (simp add: start_def)
    from steps_skills_grows [OF r this] obtain added where
      g: "messages (st c) = messages s @ added" and ns: "\<forall>x\<in>set added. \<not> is_system x"
      and pre: "\<forall>e\<in>set (invocations c). \<exists>later. messages (st c) = seen e @ later"
      by (auto simp: start_def)
    have l: "\<forall>e\<in>set (tl (invocations c)). sent e = seen e"
      using skills_later_invocations [OF r] .
    have t: "\<forall>e\<in>set (tl (invocations c)). \<exists>later. messages (st c) = seen e @ later"
      using pre by (cases "invocations c") auto
    have k: "SystemMessage p \<notin> set (messages (st c))" if "SystemMessage p \<notin> set (messages s)"
      using that g ns by auto
    have "\<forall>e\<in>set (tl (invocations c)). SystemMessage p \<notin> set (sent e)"
      if h: "SystemMessage p \<notin> set (messages s)"
    proof
      fix e assume e: "e \<in> set (tl (invocations c))"
      with t obtain later where "messages (st c) = seen e @ later" by blast
      with k [OF h] have "SystemMessage p \<notin> set (seen e)" by auto
      with l e show "SystemMessage p \<notin> set (sent e)" by simp
    qed
    with g ns k l t show ?thesis by blast
  qed
  have d: "invoke n (agent_skills p m) registry s = Inr s' \<longrightarrow>
        (\<exists>added. messages s' = messages s @ added \<and> (\<forall>x\<in>set added. \<not> is_system x))"
  proof
    assume "invoke n (agent_skills p m) registry s = Inr s'"
    then obtain c' where "steps n (agent_skills p m) registry (start s) = Inr c'" and "st c' = s'"
      by (auto simp: invoke_def split: sum.splits if_splits)
    with b [of c'] show "\<exists>added. messages s' = messages s @ added \<and> (\<forall>x\<in>set added. \<not> is_system x)"
      by blast
  qed
  from a b d show ?thesis by blast
qed

theorem skills_prompt_not_in_transcript_witness:
  "(\<exists>input. agent_skills (skillsPrompt []) plain_model \<lparr>messages = [HumanMessage ''hi'']\<rparr> =
           Inr (input, \<lparr>messages = [AIMessage ''hello'' None]\<rparr>))
   \<and> (\<exists>c. steps 3 (agent_skills (skillsPrompt []) scripted_model) search_registry
              (start \<lparr>messages = [HumanMessage ''search X'']\<rparr>) = Inr c
         \<and> SystemMessage (skillsPrompt []) \<notin> set (messages (st c))
         \<and> length (invocations c) = 2
         \<and> list_all (\<lambda>e. SystemMessage (skillsPrompt []) \<notin> set (sent e)) (tl (invocations c)))
   \<and> (\<exists>s'. invoke 3 (agent_skills (skillsPrompt []) scripted_model) search_registry
               \<lparr>messages = [HumanMessage ''search X'']\<rparr> = Inr s'
         \<and> \<not> list_ex is_system (messages s'))"
proof -
  let ?s1 = "\<lparr>messages = [HumanMessage ''hi'']\<rparr>"
  let ?s2 = "\<lparr>messages = [HumanMessage ''search X'']\<rparr>"
  have h1: "agent_skills (skillsPrompt []) plain_model ?s1 =
              Inr ([SystemMessage (skillsPrompt []), HumanMessage ''hi''], \<lparr>messages = [AIMessage ''hello'' None]\<rparr>)"
    by (simp add: agent_skills_def invoke_model_def plain_model_def)
  obtain c2 where h2: "steps 3 (agent_skills (skillsPrompt []) scripted_model) search_registry (start ?s2) = Inr c2"
    and l2: "length (invocations c2) = 2" and e2: "node c2 = END"
    using scripted_run_skills by simp
  have g2: "SystemMessage (skillsPrompt []) \<notin> set (messages ?s2)" by simp
  have i2: "invoke 3 (agent_skills (skillsPrompt []) scripted_model) search_registry ?s2 = Inr (st c2)"
    using h2 e2 by (simp add: invoke_def)
  note t = skills_prompt_not_in_transcript [where p = "skillsPrompt []" and m = scripted_model and n = 3
      and registry = search_registry and s = ?s2 and c = c2 and s' = "st c2"
      and input = "[]" and u = "\<lparr>messages = []\<rparr>"]
  from t h2 g2 have a: "SystemMessage (skillsPrompt []) \<notin> set (messages (st c2))"
    and b: "\<forall>e\<in>set (tl (invocations c2)). SystemMessage (skillsPrompt []) \<notin> set (sent e)"
    by blast+
  from t i2 obtain added where d: "messages (st c2) = messages ?s2 @ added"
    and n: "\<forall>x\<in>set added. \<not> is_system x"
    by blast
  have w1: "\<exists>input. agent_skills (skillsPrompt []) plain_model ?s1 =
           Inr (input, \<lparr>messages = [AIMessage ''hello'' None]\<rparr>)"
    using h1 skills_prompt_not_in_transcript [where p = "skillsPrompt []" and m = plain_model and s = ?s1
        and input = "[SystemMessage (skillsPrompt []), HumanMessage ''hi'']"
        and u = "\<lparr>messages = [AIMessage ''hello'' None]\<rparr>"]
    by simp
  have w2: "\<exists>c. steps 3 (agent_skills (skillsPrompt []) scripted_model) search_registry (start ?s2) = Inr c
         \<and> SystemMessage (skillsPrompt []) \<notin> set (messages (st c))
         \<and> length (invocations c) = 2
         \<and> list_all (\<lambda>e. SystemMessage (skillsPrompt []) \<notin> set (sent e)) (tl (invocations c))"
    using h2 a b l2 by (auto simp: list_all_iff)
  have "\<not> list_ex is_system (messages (st c2))"
    using d n by (auto simp: list_ex_iff)
  with i2 have w3: "\<exists>s'. invoke 3 (agent_skills (skillsPrompt []) scripted_model) search_registry ?s2 = Inr s'
         \<and> \<not> list_ex is_system (messages s')"
    by blast
  show ?thesis by (intro conjI w1 w2 w3)
qed

section \<open>The patterns of the loader\<close>

lemma literal_iff: "(literal d s = Some r) = (s = d @ r)"
  by (induction d s rule: literal.induct) auto

lemma literal_self: "literal d (d @ r) = Some r"
  by (simp add: literal_iff)

lemma literal_None_longer: "literal d s = None \<Longrightarrow> literal (d @ e) s = None"
proof (rule ccontr)
  assume n: "literal d s = None" and "literal (d @ e) s \<noteq> None"
  then obtain r where "literal (d @ e) s = Some r" by auto
  then have "s = d @ (e @ r)" by (simp add: literal_iff)
  then have "literal d s = Some (e @ r)" by (simp add: literal_iff)
  with n show False by simp
qed

lemma lazy_then_Some: "lazy_then d s = Some (a, r) \<Longrightarrow> s = a @ d @ r"
proof (induction s arbitrary: a)
  case Nil
  then show ?case by (auto simp: literal_iff split: option.splits)
next
  case (Cons c cs)
  then show ?case by (auto simp: literal_iff split: option.splits)
qed

lemma lazy_then_here: "literal d s = Some r \<Longrightarrow> lazy_then d s = Some ([], r)"
  by (cases s) simp_all

lemma lazy_then_found: "\<exists>a' r'. lazy_then d (a @ d @ r) = Some (a', r') \<and> length a' \<le> length a"
proof (induction a)
  case Nil
  have "lazy_then d (d @ r) = Some ([], r)"
    by (rule lazy_then_here) (rule literal_self)
  then show ?case by simp
next
  case (Cons c a)
  then obtain a' r' where "lazy_then d (a @ d @ r) = Some (a', r')" and "length a' \<le> length a"
    by blast
  then show ?case by (auto split: option.splits)
qed

lemma lazy_then_longer:
  "lazy_then d s = Some (a, e @ r) \<Longrightarrow> lazy_then (d @ e) s = Some (a, r)"
proof (induction s arbitrary: a)
  case Nil
  then show ?case by (auto simp: literal_iff split: option.splits)
next
  case (Cons c cs)
  show ?case
  proof (cases "literal d (c # cs)")
    case None
    with Cons.prems obtain a' where l: "lazy_then d cs = Some (a', e @ r)" and a: "a = c # a'"
      by (auto split: option.splits)
    from None have "literal (d @ e) (c # cs) = None" by (rule literal_None_longer)
    with Cons.IH [OF l] a show ?thesis by simp
  next
    case (Some x)
    with Cons.prems have a: "a = []" and x: "x = e @ r" by auto
    from Some x have "c # cs = d @ e @ r" by (simp add: literal_iff)
    then have "literal (d @ e) (c # cs) = Some r" by (simp add: literal_iff)
    with a show ?thesis by simp
  qed
qed

lemma lazy_plus_then_Some:
  "lazy_plus_then d s = Some (a, r) \<Longrightarrow> s = a @ d @ r \<and> a \<noteq> []"
  by (auto simp: lazy_plus_then_def split: list.splits option.splits dest: lazy_then_Some)

lemma lazy_plus_then_longer:
  "lazy_plus_then d s = Some (a, e @ r) \<Longrightarrow> lazy_plus_then (d @ e) s = Some (a, r)"
  by (auto simp: lazy_plus_then_def split: list.splits option.splits dest: lazy_then_longer)

lemma lazy_plus_then_found:
  "a \<noteq> [] \<Longrightarrow> \<exists>a' r'. lazy_plus_then d (a @ d @ r) = Some (a', r') \<and> length a' \<le> length a"
proof (cases a)
  case Nil
  assume "a \<noteq> []"
  with Nil show ?thesis by simp
next
  case (Cons c cs)
  from lazy_then_found [of d cs r] obtain a' r' where
    "lazy_then d (cs @ d @ r) = Some (a', r')" and "length a' \<le> length cs"
    by blast
  with Cons show ?thesis by (simp add: lazy_plus_then_def)
qed

lemma frontmatterMatch_Some:
  "frontmatterMatch content = Some fm \<Longrightarrow>
     \<exists>rest. content = ''---'' @ nl @ fm @ nl @ ''---'' @ rest \<and> fm \<noteq> []
            \<and> lazy_plus_then (nl @ ''---'') (fm @ nl @ ''---'' @ rest) = Some (fm, rest)"
proof -
  assume a: "frontmatterMatch content = Some fm"
  then obtain s r where s: "literal (''---'' @ nl) content = Some s"
    and l: "lazy_plus_then (nl @ ''---'') s = Some (fm, r)"
    by (auto simp: frontmatterMatch_def split: option.splits)
  from s have c: "content = (''---'' @ nl) @ s" by (simp only: literal_iff)
  from lazy_plus_then_Some [OF l] have "s = fm @ (nl @ ''---'') @ r" and "fm \<noteq> []" by simp_all
  with c l show ?thesis by auto
qed

lemma frontmatterMatch_found:
  assumes "x \<noteq> []"
  shows "\<exists>fm. frontmatterMatch (''---'' @ nl @ x @ nl @ ''---'' @ rest) = Some fm
              \<and> length fm \<le> length x"
proof -
  have "literal (''---'' @ nl) ((''---'' @ nl) @ (x @ nl @ ''---'' @ rest)) = Some (x @ nl @ ''---'' @ rest)"
    by (rule literal_self)
  then have l: "literal (''---'' @ nl) (''---'' @ nl @ x @ nl @ ''---'' @ rest) = Some (x @ nl @ ''---'' @ rest)"
    by simp
  from lazy_plus_then_found [OF assms, of "nl @ ''---''" rest] obtain a' r' where
    "lazy_plus_then (nl @ ''---'') (x @ (nl @ ''---'') @ rest) = Some (a', r')" and "length a' \<le> length x"
    by blast
  with l show ?thesis by (simp add: frontmatterMatch_def)
qed

lemma strip_frontmatter_body:
  assumes "frontmatterMatch content = Some fm"
    and "content = ''---'' @ nl @ fm @ nl @ ''---'' @ nl @ body"
  shows "strip_frontmatter content = body"
proof -
  from frontmatterMatch_Some [OF assms(1)] obtain rest where
    c: "content = ''---'' @ nl @ fm @ nl @ ''---'' @ rest"
    and l: "lazy_plus_then (nl @ ''---'') (fm @ nl @ ''---'' @ rest) = Some (fm, rest)"
    by blast
  from c assms(2) have r: "rest = nl @ body" by simp
  with l have "lazy_plus_then (nl @ ''---'') (fm @ nl @ ''---'' @ rest) = Some (fm, nl @ body)"
    by simp
  then have "lazy_plus_then ((nl @ ''---'') @ nl) (fm @ nl @ ''---'' @ rest) = Some (fm, body)"
    by (rule lazy_plus_then_longer)
  then have l': "lazy_plus_then (nl @ ''---'' @ nl) (fm @ nl @ ''---'' @ rest) = Some (fm, body)"
    by simp
  have "literal (''---'' @ nl) ((''---'' @ nl) @ (fm @ nl @ ''---'' @ rest)) = Some (fm @ nl @ ''---'' @ rest)"
    by (rule literal_self)
  with c have "literal (''---'' @ nl) content = Some (fm @ nl @ ''---'' @ rest)" by simp
  with l' show ?thesis by (simp add: strip_frontmatter_def)
qed

lemma trim_parts:
  "\<exists>l r. s = l @ trim s @ r \<and> list_all is_space l \<and> list_all is_space r"
proof -
  let ?t = "dropWhile is_space s"
  have 1: "s = takeWhile is_space s @ ?t" by simp
  have "rev (takeWhile is_space (rev ?t) @ dropWhile is_space (rev ?t)) = ?t"
    by (simp only: takeWhile_dropWhile_id rev_rev_ident)
  then have "rev (dropWhile is_space (rev ?t)) @ rev (takeWhile is_space (rev ?t)) = ?t"
    by (simp only: rev_append)
  then have 2: "?t = trim s @ rev (takeWhile is_space (rev ?t))"
    by (simp only: trim_def)
  have "s = takeWhile is_space s @ trim s @ rev (takeWhile is_space (rev ?t))"
    using 1 2 by metis
  moreover have "list_all is_space (takeWhile is_space s)"
    by (auto simp: list_all_iff dest: set_takeWhileD)
  moreover have "list_all is_space (rev (takeWhile is_space (rev ?t)))"
    by (auto simp: list_all_iff dest: set_takeWhileD)
  ultimately show ?thesis by blast
qed

lemma key_match_Some:
  "key_match key s = Some v \<Longrightarrow>
     \<exists>pre r. s = pre @ key @ r \<and> match_at key (key @ r) = Some v
             \<and> (\<forall>i<length pre. match_at key (drop i s) = None)"
proof (induction s)
  case Nil
  then have m: "match_at key [] = Some v" by simp
  then obtain r where "literal key [] = Some r"
    by (auto simp: match_at_def split: option.splits)
  then have "[] = key @ r" by (simp only: literal_iff)
  then have "key = []" and "r = []" by simp_all
  with m show ?case by (intro exI [of _ "[]"]) simp
next
  case (Cons c cs)
  show ?case
  proof (cases "match_at key (c # cs)")
    case (Some v')
    with Cons.prems have v: "v' = v" by simp
    from Some obtain r where "literal key (c # cs) = Some r"
      by (auto simp: match_at_def split: option.splits)
    then have e: "c # cs = key @ r" by (simp only: literal_iff)
    with Some v have "c # cs = [] @ key @ r \<and> match_at key (key @ r) = Some v" by simp
    then show ?thesis by (intro exI [of _ "[]"] exI [of _ r]) simp
  next
    case None
    with Cons.prems have "key_match key cs = Some v" by simp
    from Cons.IH [OF this] obtain pre r where
      e: "cs = pre @ key @ r" and m: "match_at key (key @ r) = Some v"
      and n: "\<forall>i<length pre. match_at key (drop i cs) = None"
      by blast
    have "\<forall>i<length (c # pre). match_at key (drop i (c # cs)) = None"
    proof (intro allI impI)
      fix i assume "i < length (c # pre)"
      then show "match_at key (drop i (c # cs)) = None"
        using None n by (cases i) auto
    qed
    with e m show ?thesis
      by (intro exI [of _ "c # pre"] exI [of _ r]) simp
  qed
qed

lemma occurs_iff: "occurs key s = (\<exists>i\<le>length s. literal key (drop i s) \<noteq> None)"
proof (induction s)
  case Nil
  show ?case by simp
next
  case (Cons c cs)
  show ?case
  proof
    assume "occurs key (c # cs)"
    then consider "literal key (c # cs) \<noteq> None" | "occurs key cs" by auto
    then show "\<exists>i\<le>length (c # cs). literal key (drop i (c # cs)) \<noteq> None"
    proof cases
      case 1
      then have "literal key (drop 0 (c # cs)) \<noteq> None" by simp
      then show ?thesis by blast
    next
      case 2
      with Cons.IH obtain i where "i \<le> length cs" and "literal key (drop i cs) \<noteq> None" by blast
      then have "Suc i \<le> length (c # cs)" and "literal key (drop (Suc i) (c # cs)) \<noteq> None"
        by simp_all
      then show ?thesis by blast
    qed
  next
    assume "\<exists>i\<le>length (c # cs). literal key (drop i (c # cs)) \<noteq> None"
    then obtain i where i: "i \<le> length (c # cs)" and l: "literal key (drop i (c # cs)) \<noteq> None"
      by blast
    show "occurs key (c # cs)"
    proof (cases i)
      case 0
      with l show ?thesis by simp
    next
      case (Suc j)
      with i l have "j \<le> length cs" and "literal key (drop j cs) \<noteq> None" by simp_all
      with Cons.IH have "occurs key cs" by blast
      then show ?thesis by simp
    qed
  qed
qed

lemma key_match_absent:
  assumes "\<not> occurs key s"
  shows "key_match key s = None"
proof (rule ccontr)
  assume "key_match key s \<noteq> None"
  then obtain v where "key_match key s = Some v" by auto
  from key_match_Some [OF this] obtain pre r where s: "s = pre @ key @ r" by blast
  then have "literal key (drop (length pre) s) = Some r" by (simp add: literal_iff)
  moreover have "length pre \<le> length s" using s by simp
  ultimately have "occurs key s" using occurs_iff by blast
  with assms show False by simp
qed

section \<open>Loading the skills\<close>

lemma parse_skill_Some:
  "parse_skill p content = Some sk \<Longrightarrow>
     path sk = p
     \<and> (\<exists>fm n d. frontmatterMatch content = Some fm \<and> nameMatch fm = Some n
           \<and> descMatch fm = Some d \<and> name sk = trim n \<and> description sk = trim d
           \<and> instructions sk = trim (strip_frontmatter content))"
  by (auto simp: parse_skill_def split: option.splits)

lemma parse_skill_None:
  "(parse_skill p content = None) =
     (case frontmatterMatch content of
        None \<Rightarrow> True
      | Some fm \<Rightarrow> nameMatch fm = None \<or> descMatch fm = None)"
  by (auto simp: parse_skill_def split: option.splits)

lemma load_loop_append:
  "load_loop rd (ds1 @ ds2) acc = load_loop rd ds2 (load_loop rd ds1 acc)"
proof (induction ds1 arbitrary: acc)
  case Nil
  show ?case by simp
next
  case (Cons d ds1)
  show ?case by (cases acc) (simp add: Cons.IH)
qed

lemma load_loop_acc:
  "load_loop rd ds (sk, w) =
     (sk @ fst (load_loop rd ds ([], [])), w @ snd (load_loop rd ds ([], [])))"
proof (induction ds arbitrary: sk w)
  case Nil
  show ?case by simp
next
  case (Cons d ds)
  have a: "load_loop rd ds (x, y) =
        (x @ fst (load_loop rd ds ([], [])), y @ snd (load_loop rd ds ([], [])))" for x y
    by (rule Cons.IH)
  show ?case
    by (simp add: a [of "sk @ _" w] a [of sk "w @ _"] a [of sk w] a [of "[_]" "[]"]
          a [of "[]" "[_]"] split: sum.splits option.splits)
qed

lemma load_loop_fst:
  "fst (load_loop rd (d # ds) ([], [])) =
     fst (load_loop rd [d] ([], [])) @ fst (load_loop rd ds ([], []))"
proof -
  obtain s1 w1 where o: "load_loop rd [d] ([], []) = (s1, w1)"
    by (metis surj_pair)
  have "load_loop rd ([d] @ ds) ([], []) = load_loop rd ds (load_loop rd [d] ([], []))"
    by (rule load_loop_append)
  then have "load_loop rd (d # ds) ([], []) = load_loop rd ds (s1, w1)"
    by (simp only: o append_Cons append_Nil)
  also have "\<dots> = (s1 @ fst (load_loop rd ds ([], [])), w1 @ snd (load_loop rd ds ([], [])))"
    by (rule load_loop_acc)
  finally have "fst (load_loop rd (d # ds) ([], [])) = s1 @ fst (load_loop rd ds ([], []))"
    by (simp only: fst_conv)
  then show ?thesis by (simp only: o fst_conv)
qed

text \<open>Given the listing, the loader returns, whatever the files hold and whether or not
  they can be read, and with at most one descriptor for each subdirectory.\<close>

lemma load_one_length:
  "length (fst (load_loop rd [d] ([], []))) \<le> (if is_dir d then 1 else 0)"
  by (simp split: sum.splits option.splits)

lemma load_loop_length:
  "length (fst (load_loop rd ds ([], []))) \<le> length (filter is_dir ds)"
proof (induction ds)
  case Nil
  show ?case by simp
next
  case (Cons d ds)
  have "fst (load_loop rd (d # ds) ([], [])) =
        fst (load_loop rd [d] ([], [])) @ fst (load_loop rd ds ([], []))"
    by (rule load_loop_fst)
  then have "length (fst (load_loop rd (d # ds) ([], []))) =
        length (fst (load_loop rd [d] ([], [])) @ fst (load_loop rd ds ([], [])))"
    by (rule arg_cong)
  then have "length (fst (load_loop rd (d # ds) ([], []))) =
        length (fst (load_loop rd [d] ([], []))) + length (fst (load_loop rd ds ([], [])))"
    by (simp only: length_append)
  also have "\<dots> \<le> (if is_dir d then 1 else 0) + length (filter is_dir ds)"
    using load_one_length [of rd d] Cons.IH by (rule add_mono)
  also have "\<dots> = length (filter is_dir (d # ds))" by simp
  finally show ?case .
qed

lemma loadSkillsMetadata_total:
  assumes "lsInfo b root = Inr dirs"
  shows "\<exists>skills warnings. loadSkillsMetadata b root = Inr (skills, warnings)
           \<and> length skills \<le> length (filter is_dir dirs)"
proof -
  let ?r = "load_loop (readRaw b) dirs ([], [])"
  have "loadSkillsMetadata b root = Inr (fst ?r, snd ?r)"
    using assms by (simp add: loadSkillsMetadata_def)
  moreover have "length (fst ?r) \<le> length (filter is_dir dirs)"
    by (rule load_loop_length)
  ultimately show ?thesis by blast
qed

text \<open>
  Claim C4. The claim asks for as many descriptors as there are subdirectories whose
  instruction file has a valid header, and for an empty array when there is none. The
  loader does return, but not always that many descriptors. In a skills directory whose
  only subdirectory holds a file that is closed by a line of four dashes, no file has a
  header delimited by lines of exactly three dashes; the loader returns one descriptor,
  and its instructions are the whole file, header included.
\<close>

theorem four_dash_skill_is_loaded:
  "lsInfo dashes_backend ''/skills'' = Inr [\<lparr>dir_path = ''/skills/a/'', is_dir = True\<rparr>]
   \<and> readRaw dashes_backend ''/skills/a/SKILL.md'' =
       Inr [''---'', ''name: a'', ''description: b'', ''----'']
   \<and> \<not> delimited_spec (join nl [''---'', ''name: a'', ''description: b'', ''----''])
   \<and> loadSkillsMetadata dashes_backend ''/skills'' =
       Inr ([\<lparr>name = ''a'', description = ''b'', path = ''/skills/a/SKILL.md'',
              instructions = ''---'' @ nl @ ''name: a'' @ nl @ ''description: b'' @ nl @ ''----''\<rparr>],
            [])"
  by code_simp

text \<open>
  Claim C5, as the specification words it, does not hold: for a header without a
  description the skill is skipped, and nothing is logged. The only warning of the loader
  is written in the \<^verbatim>\<open>catch\<close> block, when the file cannot be read.
\<close>

theorem missing_key_warning_counterexample:
  "join nl [''---'', ''name: broken'', ''---'', ''no description'']
     = ''---'' @ nl @ ''name: broken'' @ nl @ ''---'' @ nl @ ''no description''
   \<and> \<not> occurs ''description:'' ''name: broken''
   \<and> frontmatterMatch (join nl [''---'', ''name: broken'', ''---'', ''no description''])
     = Some ''name: broken''
   \<and> descMatch ''name: broken'' = None
   \<and> loadSkillsMetadata broken_backend ''/skills'' = Inr ([], [])"
  by code_simp

lemma occurs_append: "occurs key a \<Longrightarrow> occurs key (a @ b)"
proof -
  assume "occurs key a"
  then obtain i r where i: "i \<le> length a" and l: "literal key (drop i a) = Some r"
    using occurs_iff [of key a] by auto
  then have "drop i a = key @ r" by (simp only: literal_iff)
  with i have "drop i (a @ b) = key @ (r @ b)" by simp
  then have "literal key (drop i (a @ b)) = Some (r @ b)" by (simp only: literal_iff)
  moreover have "i \<le> length (a @ b)" using i by simp
  ultimately show ?thesis using occurs_iff [of key "a @ b"] by blast
qed

lemma frontmatter_in_header:
  assumes "header \<noteq> []"
  shows "\<exists>fm z. frontmatterMatch (''---'' @ nl @ header @ nl @ ''---'' @ rest) = Some fm
                \<and> header = fm @ z"
proof -
  let ?c = "''---'' @ nl @ header @ nl @ ''---'' @ rest"
  from frontmatterMatch_found [OF assms, of rest] obtain fm where
    f: "frontmatterMatch ?c = Some fm" and l: "length fm \<le> length header"
    by blast
  from frontmatterMatch_Some [OF f] obtain rest' where
    "?c = ''---'' @ nl @ fm @ nl @ ''---'' @ rest'"
    by blast
  then have "header @ (nl @ ''---'' @ rest) = fm @ (nl @ ''---'' @ rest')"
    by simp
  with l have "take (length fm) header = fm"
    by (metis append_eq_append_conv_if append_eq_conv_conj)
  then have "header = fm @ drop (length fm) header"
    by (metis append_take_drop_id)
  with f show ?thesis by blast
qed

text \<open>
  Claim C5, amended. Take an instruction file with a header, a text that is not empty,
  between a first line of exactly three dashes and a later line of exactly three dashes.
  When the characters of the name key or the characters of the description key occur
  nowhere in the header, the subdirectory is skipped without a warning, and loading goes
  on: the descriptors and the warnings are those of the other listed entries, as if that
  subdirectory were not there.
\<close>

theorem missing_key_skips_silently:
  assumes "lsInfo b root = Inr (ds1 @ d # ds2)"
    and "is_dir d"
    and "readRaw b (skillMdPath d) = Inr ls"
    and "join nl ls = ''---'' @ nl @ header @ nl @ ''---'' @ rest"
    and "header \<noteq> []"
    and "rest = [] \<or> hd rest = CHR 0x0A"
    and "\<not> occurs ''name:'' header \<or> \<not> occurs ''description:'' header"
  shows "loadSkillsMetadata b root = Inr (load_loop (readRaw b) (ds1 @ ds2) ([], []))"
proof -
  from frontmatter_in_header [OF assms(5), of rest] assms(4) obtain fm z where
    f: "frontmatterMatch (join nl ls) = Some fm" and h: "header = fm @ z"
    by auto
  have "\<not> occurs ''name:'' fm \<or> \<not> occurs ''description:'' fm"
    using assms(7) h occurs_append by blast
  then have "nameMatch fm = None \<or> descMatch fm = None"
    using key_match_absent by (auto simp: nameMatch_def descMatch_def)
  then have p: "parse_skill (skillMdPath d) (join nl ls) = None"
    using f by (simp add: parse_skill_None)
  have one: "load_loop (readRaw b) [d] acc = acc" for acc
    using assms(2,3) p by (cases acc) simp
  have "load_loop (readRaw b) (ds1 @ [d] @ ds2) ([], [])
        = load_loop (readRaw b) ds2 (load_loop (readRaw b) [d] (load_loop (readRaw b) ds1 ([], [])))"
    by (simp only: load_loop_append)
  also have "\<dots> = load_loop (readRaw b) (ds1 @ ds2) ([], [])"
    by (simp only: one load_loop_append)
  finally show ?thesis using assms(1) by (simp add: loadSkillsMetadata_def)
qed

theorem missing_key_skips_silently_witness:
  "loadSkillsMetadata example_backend ''/skills'' =
     Inr ([\<lparr>name = ''foo'', description = ''Foo tool'', path = ''/skills/foo/SKILL.md'',
            instructions = ''Do X''\<rparr>],
          [''Warning: Could not load skill from /skills/empty/SKILL.md''])"
proof -
  let ?d = "\<lparr>dir_path = ''/skills/broken/'', is_dir = True\<rparr>"
  let ?ds1 = "[\<lparr>dir_path = ''/skills/foo/'', is_dir = True\<rparr>,
               \<lparr>dir_path = ''/skills/empty/'', is_dir = True\<rparr>]"
  let ?ds2 = "[\<lparr>dir_path = ''/skills/notes.txt'', is_dir = False\<rparr>]"
  have h1: "lsInfo example_backend ''/skills'' = Inr (?ds1 @ ?d # ?ds2)"
    by (simp add: example_backend_def)
  have h2: "is_dir ?d" by simp
  have h3: "readRaw example_backend (skillMdPath ?d) =
              Inr [''---'', ''name: broken'', ''---'', ''no description'']"
    by (simp add: example_backend_def skillMdPath_def)
  have h4: "join nl [''---'', ''name: broken'', ''---'', ''no description'']
              = ''---'' @ nl @ ''name: broken'' @ nl @ ''---'' @ (nl @ ''no description'')"
    by simp
  have h5: "''name: broken'' \<noteq> []" by simp
  have h6: "nl @ ''no description'' = [] \<or> hd (nl @ ''no description'') = CHR 0x0A"
    by (simp add: nl_def)
  have h7: "\<not> occurs ''name:'' ''name: broken'' \<or> \<not> occurs ''description:'' ''name: broken''"
    by code_simp
  have r: "load_loop (readRaw example_backend) (?ds1 @ ?ds2) ([], []) =
           ([\<lparr>name = ''foo'', description = ''Foo tool'', path = ''/skills/foo/SKILL.md'',
              instructions = ''Do X''\<rparr>],
            [''Warning: Could not load skill from /skills/empty/SKILL.md''])"
    by code_simp
  from missing_key_skips_silently [OF h1 h2 h3 h4 h5 h6 h7] r show ?thesis by simp
qed

section \<open>The instructions of a skill\<close>

text \<open>
  Claim C6, as the specification words it, does not hold: \<^verbatim>\<open>trim\<close> removes all the
  white space in front of the body and behind it, not one leading newline only.
\<close>

theorem instructions_counterexample:
  "map_option instructions
     (parse_skill ''/skills/foo/SKILL.md''
        (''---'' @ nl @ ''name: foo'' @ nl @ ''description: Foo tool'' @ nl @ ''---'' @ nl
           @ nl @ ''  Do X  '' @ nl)) = Some ''Do X''
   \<and> instructions_spec
        (''---'' @ nl @ ''name: foo'' @ nl @ ''description: Foo tool'' @ nl @ ''---'' @ nl
           @ nl @ ''  Do X  '' @ nl) = Some (nl @ ''  Do X  '' @ nl)
   \<and> ''Do X'' \<noteq> nl @ ''  Do X  '' @ nl"
  by code_simp

text \<open>
  Claim C6, amended. For an instruction file whose header ends in a line of three dashes
  followed by a newline, the instructions of the descriptor are the text after that
  newline with all white space removed from its start and from its end, and otherwise
  unchanged: the body is the instructions between two runs of white space.
\<close>

theorem instructions_are_trimmed_body:
  assumes "frontmatterMatch content = Some fm"
    and "content = ''---'' @ nl @ fm @ nl @ ''---'' @ nl @ body"
    and "parse_skill p content = Some sk"
  shows "instructions sk = trim body
         \<and> (\<exists>l r. body = l @ instructions sk @ r \<and> list_all is_space l \<and> list_all is_space r)"
proof -
  from parse_skill_Some [OF assms(3)] have "instructions sk = trim (strip_frontmatter content)"
    by blast
  with strip_frontmatter_body [OF assms(1,2)] have i: "instructions sk = trim body"
    by simp
  with trim_parts [of body] show ?thesis by simp
qed

theorem instructions_are_trimmed_body_witness:
  "\<exists>sk. parse_skill ''/skills/foo/SKILL.md''
           (''---'' @ nl @ ''name: foo'' @ nl @ ''description: Foo tool'' @ nl @ ''---'' @ nl
              @ nl @ ''  Do X  '' @ nl) = Some sk
        \<and> instructions sk = ''Do X''"
proof -
  let ?fm = "''name: foo'' @ nl @ ''description: Foo tool''"
  let ?body = "nl @ ''  Do X  '' @ nl"
  let ?c = "''---'' @ nl @ ''name: foo'' @ nl @ ''description: Foo tool'' @ nl @ ''---'' @ nl
              @ nl @ ''  Do X  '' @ nl"
  have h1: "frontmatterMatch ?c = Some ?fm" by code_simp
  have h2: "?c = ''---'' @ nl @ ?fm @ nl @ ''---'' @ nl @ ?body" by simp
  have "parse_skill ''/skills/foo/SKILL.md'' ?c \<noteq> None" by code_simp
  then obtain sk where h3: "parse_skill ''/skills/foo/SKILL.md'' ?c = Some sk"
    by blast
  have t: "trim ?body = ''Do X''" by code_simp
  from instructions_are_trimmed_body [OF h1 h2 h3] t have "instructions sk = ''Do X''"
    by simp
  with h3 show ?thesis by blast
qed

section \<open>The header of an instruction file\<close>

text \<open>
  Claim C7. The claim asks that a header be recognised only between two lines of exactly
  three dashes, and that each key be found by its first match, whatever the order of the
  two keys. The loader does otherwise on two files. For a file closed by a line of four
  dashes the pattern of the header matches, while the pattern that removes the header,
  which asks for a newline after the three dashes, does not: the descriptor is made and
  its instructions are the whole file, header included. And when the description line
  comes first and holds the characters of the name key, the name is read from the
  description line; with the name line first it is read from the name line.
\<close>

theorem four_dash_header_is_recognised:
  "\<not> delimited_spec (''---'' @ nl @ ''name: a'' @ nl @ ''description: b'' @ nl @ ''----'')
   \<and> frontmatterMatch (''---'' @ nl @ ''name: a'' @ nl @ ''description: b'' @ nl @ ''----'')
       = Some (''name: a'' @ nl @ ''description: b'')
   \<and> strip_frontmatter (''---'' @ nl @ ''name: a'' @ nl @ ''description: b'' @ nl @ ''----'')
       = ''---'' @ nl @ ''name: a'' @ nl @ ''description: b'' @ nl @ ''----''
   \<and> parse_skill ''/skills/a/SKILL.md''
         (''---'' @ nl @ ''name: a'' @ nl @ ''description: b'' @ nl @ ''----'')
       = Some \<lparr>name = ''a'', description = ''b'', path = ''/skills/a/SKILL.md'',
               instructions =
                 ''---'' @ nl @ ''name: a'' @ nl @ ''description: b'' @ nl @ ''----''\<rparr>
   \<and> nameMatch (''name: foo'' @ nl @ ''description: the name: x'') = Some ''foo''
   \<and> nameMatch (''description: the name: x'' @ nl @ ''name: foo'') = Some ''x''"
  by code_simp

end
